theory Spec2Isabelle
  imports Main "HOL-Library.Multiset"
begin

section \<open>Data model of package patterns\<close>

text \<open>
  A Go \<open>map[int]int\<close> holding a shape signature. A map value is either the nil map or an
  allocated map; \<open>reflect.DeepEqual\<close> tells the two apart even when both are empty. The
  entries of an allocated map are kept as an association list; a Go map has one entry per
  key (\<open>wf_map\<close>). The order of the list is not part of the map: \<open>DeepEqual\<close> does not look
  at it, and a \<open>range\<close> statement visits the entries in an order of its own (\<open>rangeOver\<close>
  below). Maps are values here: the sources never write to a map after handing it to
  \<open>addPattern\<close>.
\<close>

datatype gomap = NilMap | MkMap "(int \<times> int) list"

fun entries :: "gomap \<Rightarrow> (int \<times> int) list" where
  "entries NilMap = []"
| "entries (MkMap kvs) = kvs"

definition len :: "gomap \<Rightarrow> nat" where
  "len m = length (entries m)"

definition wf_map :: "gomap \<Rightarrow> bool" where
  "wf_map m = distinct (map fst (entries m))"

text \<open>
  A \<open>range\<close> over a map visits every entry once, in an order that the Go runtime chooses
  anew each time the statement is executed. The choice made at one execution is a
  parameter, the list of the positions of the entries in the order they are visited; a
  list that is not a permutation of the positions stands for the order of the list
  itself. The loops whose result depends on the order take this parameter; the loops of
  \<open>addPattern\<close> and \<open>Same\<close> over a map give the same result in every order (lemmas
  \<open>detectLoop_order\<close>, \<open>entryLoop_order\<close> and \<open>checkEntries_order\<close>) and run over the list.
\<close>

type_synonym rangeOrder = "nat list"

definition rangeOver :: "rangeOrder \<Rightarrow> 'a list \<Rightarrow> 'a list" where
  "rangeOver order es = (if sort order = [0..<length es] then map (\<lambda>i. es ! i) order else es)"

text \<open>
  \<open>reflect.DeepEqual\<close> on two maps: both nil or both non-nil, the same length, and every key
  of the first bound to the same value in the second.
\<close>

fun DeepEqual :: "gomap \<Rightarrow> gomap \<Rightarrow> bool" where
  "DeepEqual NilMap NilMap = True"
| "DeepEqual (MkMap a) (MkMap b) =
     (length a = length b \<and> (\<forall>(k, v) \<in> set a. map_of b k = Some v))"
| "DeepEqual _ _ = False"

definition CompareCallPatterns :: "gomap \<Rightarrow> gomap \<Rightarrow> bool" where
  "CompareCallPatterns p1 p2 = (if len p1 \<noteq> len p2 then False else DeepEqual p1 p2)"

text \<open>
  \<open>CallData\<close>. \<open>Count\<close> is a Go \<open>int\<close>; it is only ever incremented together with an append
  to \<open>Calls\<close>, so it stays far below \<open>2^63\<close> and is modelled by an unbounded integer.
\<close>

record CallData =
  Send :: gomap
  Recv :: gomap
  Count :: int
  Calls :: "int list"

text \<open>
  \<open>Data\<close> holds slices of pointers to \<open>CallData\<close>. The objects live in a store, a list
  indexed by address; \<open>new(CallData)\<close> allocates at the end of the store. The five
  slices hold addresses, so that two slices can share one object.
\<close>

type_synonym heap = "CallData list"

record Data =
  AllPatterns :: "nat list"
  OneToN :: "nat list"
  NToN :: "nat list"
  NToOne :: "nat list"
  Empty :: "nat list"

definition zero_Data :: Data where
  "zero_Data = \<lparr>AllPatterns = [], OneToN = [], NToN = [], NToOne = [], Empty = []\<rparr>"

text \<open>
  A Go \<open>int\<close> has 64 bits on the platforms the tools run on; the product of two of them
  wraps around in two's complement. Keys, values and call numbers are modelled by
  unbounded integers, and the wrap-around is written out where the source multiplies.
\<close>

definition wrap64 :: "int \<Rightarrow> int" where
  "wrap64 x = (x + 9223372036854775808) mod 18446744073709551616 - 9223372036854775808"

section \<open>addPattern\<close>

text \<open>
  The first loop of \<open>addPattern\<close>: scan \<open>d.AllPatterns\<close> in order; at the first bucket whose
  send and receive maps both compare equal, increment its count, append the call number
  and return. \<open>None\<close> means the loop ran to its end without a match.
\<close>

fun mergeLoop :: "heap \<Rightarrow> nat list \<Rightarrow> int \<Rightarrow> gomap \<Rightarrow> gomap \<Rightarrow> heap option" where
  "mergeLoop h [] callNum sendPatterns recvPatterns = None"
| "mergeLoop h (x # xs) callNum sendPatterns recvPatterns =
     (if CompareCallPatterns (Send (h ! x)) sendPatterns
         \<and> CompareCallPatterns (Recv (h ! x)) recvPatterns
      then Some (h[x := (h ! x)\<lparr>Count := Count (h ! x) + 1,
                                 Calls := Calls (h ! x) @ [callNum]\<rparr>])
      else mergeLoop h xs callNum sendPatterns recvPatterns)"

text \<open>
  The second loop: one pass over the entries of the send map of the new bucket; the first
  rule that holds for an entry appends the new bucket to its view, then \<open>continue\<close>.
\<close>

fun detectLoop :: "nat \<Rightarrow> (int \<times> int) list \<Rightarrow> Data \<Rightarrow> Data" where
  "detectLoop new_cp [] d = d"
| "detectLoop new_cp ((sendTo, n) # es) d =
     (if sendTo > wrap64 (n * 100)
      then detectLoop new_cp es (d\<lparr>OneToN := OneToN d @ [new_cp]\<rparr>)
      else if sendTo = n
      then detectLoop new_cp es (d\<lparr>NToN := NToN d @ [new_cp]\<rparr>)
      else if wrap64 (sendTo * 100) < n
      then detectLoop new_cp es (d\<lparr>NToOne := NToOne d @ [new_cp]\<rparr>)
      else detectLoop new_cp es d)"

text \<open>
  \<open>addPattern\<close> on the store and the collection. Every \<open>return\<close> of the source returns a
  nil error, so the model returns the new state only.
\<close>

definition addPattern :: "int \<Rightarrow> gomap \<Rightarrow> gomap \<Rightarrow> heap \<times> Data \<Rightarrow> heap \<times> Data" where
  "addPattern callNum sendPatterns recvPatterns st =
     (case st of (h, d) \<Rightarrow>
        (case mergeLoop h (AllPatterns d) callNum sendPatterns recvPatterns of
           Some h' \<Rightarrow> (h', d)
         | None \<Rightarrow>
             (let new_cp = length h;
                  h' = h @ [\<lparr>Send = sendPatterns, Recv = recvPatterns,
                             Count = 1, Calls = [callNum]\<rparr>];
                  d' = d\<lparr>AllPatterns := AllPatterns d @ [new_cp]\<rparr>
              in (h', detectLoop new_cp (entries sendPatterns) d'))))"

text \<open>A sequence of \<open>addPattern\<close> calls on one collection, each with its call number and maps.\<close>

fun addPatterns :: "(int \<times> gomap \<times> gomap) list \<Rightarrow> heap \<times> Data \<Rightarrow> heap \<times> Data" where
  "addPatterns [] st = st"
| "addPatterns ((c, s, r) # cs) st = addPatterns cs (addPattern c s r st)"

section \<open>Errors\<close>

text \<open>
  The errors the modelled functions return, as values. \<open>External\<close> stands for an error
  that comes from code outside the sources (the operating system, package \<open>counts\<close>,
  package \<open>notation\<close>). \<open>PanicIndexOutOfRange\<close> is not a returned error: it marks a run
  that panics on an index expression.
\<close>

datatype error =
    EOF
  | NotAHeader string
  | WrongFileFormat string
  | UnableToRead error
  | UnableToFind int
  | Compromised string
  | External string
  | PanicIndexOutOfRange

section \<open>ParseFiles\<close>

text \<open>
  \<open>counts.Bin\<close> and \<open>counts.SendRecvStats\<close> belong to package \<open>counts\<close>, which is not among
  the sources; the records hold the fields the sources read.
\<close>

record Bin =
  Min_bin :: int
  Max_bin :: int
  Size_bin :: int

record SendRecvStats =
  SendPatterns :: gomap
  RecvPatterns :: gomap
  TotalSendNonZeroCounts :: int
  TotalRecvNonZeroCounts :: int
  TotalNumCalls :: int
  Bins :: "Bin list"

definition zero_SendRecvStats :: SendRecvStats where
  "zero_SendRecvStats = \<lparr>SendPatterns = NilMap, RecvPatterns = NilMap,
     TotalSendNonZeroCounts = 0, TotalRecvNonZeroCounts = 0, TotalNumCalls = 0, Bins = []\<rparr>"

text \<open>
  The body of the barrier test of \<open>ParseFiles\<close>: a fresh \<open>CallData\<close> (its maps nil), with
  count one and the call number as its only call, appended to \<open>Empty\<close>.
\<close>

definition trackEmpty :: "int \<Rightarrow> SendRecvStats \<Rightarrow> heap \<times> Data \<Rightarrow> heap \<times> Data" where
  "trackEmpty i callCountsData st =
     (case st of (h, d) \<Rightarrow>
        if TotalSendNonZeroCounts callCountsData = 0 \<and> TotalRecvNonZeroCounts callCountsData = 0
        then (h @ [\<lparr>Send = NilMap, Recv = NilMap, Count = 1, Calls = [i]\<rparr>],
              d\<lparr>Empty := Empty d @ [length h]\<rparr>)
        else (h, d))"

text \<open>
  The loop of \<open>ParseFiles\<close>. \<open>counts.ParseFiles\<close> is outside the sources: the parameter
  \<open>counts_ParseFiles i\<close> is what its call in iteration \<open>i\<close> returns (the source passes it
  the same arguments in every iteration). The result is the triple the source returns:
  statistics, patterns, error.
\<close>

function ParseFiles_loop ::
  "(int \<Rightarrow> SendRecvStats \<times> error option) \<Rightarrow> int \<Rightarrow> int \<Rightarrow> SendRecvStats \<Rightarrow> heap \<times> Data
   \<Rightarrow> SendRecvStats \<times> (heap \<times> Data) \<times> error option" where
  "ParseFiles_loop counts_ParseFiles numCalls i callsCountsData patterns =
     (if i < numCalls then
        (case counts_ParseFiles i of
           (callCountsData, Some err) \<Rightarrow> (callCountsData, patterns, Some err)
         | (callCountsData, None) \<Rightarrow>
             ParseFiles_loop counts_ParseFiles numCalls (i + 1)
               (callsCountsData\<lparr>TotalNumCalls := TotalNumCalls callsCountsData + 1\<rparr>)
               (trackEmpty i callCountsData
                  (addPattern i (SendPatterns callCountsData) (RecvPatterns callCountsData)
                     patterns)))
      else (callsCountsData, patterns, None))"
  by pat_completeness auto
termination
  by (relation "measure (\<lambda>(f, numCalls, i, s, p). nat (numCalls - i))") auto

text \<open>
  \<open>ParseFiles\<close> starts from the zero \<open>Data\<close> and from the statistics that
  \<open>counts.NewSendRecvStats\<close> returns (a parameter). \<open>h0\<close> is the store at the time of the call.
\<close>

definition ParseFiles ::
  "(int \<Rightarrow> SendRecvStats \<times> error option) \<Rightarrow> SendRecvStats \<Rightarrow> int \<Rightarrow> heap
   \<Rightarrow> SendRecvStats \<times> (heap \<times> Data) \<times> error option" where
  "ParseFiles counts_ParseFiles NewSendRecvStats numCalls h0 =
     ParseFiles_loop counts_ParseFiles numCalls 0 NewSendRecvStats (h0, zero_Data)"

section \<open>Same\<close>

text \<open>
  The inner loops of \<open>patternIsInList\<close> over the entries of one map. The test is the
  source's: it compares \<open>numP\<close> with itself.
\<close>

fun entryLoop :: "int \<Rightarrow> int \<Rightarrow> (int \<times> int) list \<Rightarrow> bool" where
  "entryLoop numPeers numRanks [] = False"
| "entryLoop numPeers numRanks ((numP, numR) # es) =
     (if numP = numP \<and> numRanks = numR then True else entryLoop numPeers numRanks es)"

fun patternIsInList :: "heap \<Rightarrow> int \<Rightarrow> int \<Rightarrow> string \<Rightarrow> nat list \<Rightarrow> int" where
  "patternIsInList h numPeers numRanks ctx [] = 0"
| "patternIsInList h numPeers numRanks ctx (p # patterns) =
     (if ctx = ''SEND''
      then (if entryLoop numPeers numRanks (entries (Send (h ! p))) then Count (h ! p)
            else patternIsInList h numPeers numRanks ctx patterns)
      else (if entryLoop numPeers numRanks (entries (Recv (h ! p))) then Count (h ! p)
            else patternIsInList h numPeers numRanks ctx patterns))"

text \<open>
  The loops of \<open>sameListOfPatterns\<close>: \<open>False\<close> is the early \<open>return false\<close>. The log lines
  have no effect on the result and are left out.
\<close>

fun checkEntries :: "heap \<Rightarrow> string \<Rightarrow> nat list \<Rightarrow> (int \<times> int) list \<Rightarrow> bool" where
  "checkEntries h ctx patterns2 [] = True"
| "checkEntries h ctx patterns2 ((numPeers, numRanks) # es) =
     (if patternIsInList h numPeers numRanks ctx patterns2 = 0 then False
      else checkEntries h ctx patterns2 es)"

fun checkSend :: "heap \<Rightarrow> nat list \<Rightarrow> nat list \<Rightarrow> bool" where
  "checkSend h [] patterns2 = True"
| "checkSend h (p1 # patterns1) patterns2 =
     (if checkEntries h ''SEND'' patterns2 (entries (Send (h ! p1)))
      then checkSend h patterns1 patterns2 else False)"

fun checkRecv :: "heap \<Rightarrow> nat list \<Rightarrow> nat list \<Rightarrow> bool" where
  "checkRecv h [] patterns2 = True"
| "checkRecv h (p1 # patterns1) patterns2 =
     (if checkEntries h ''RECV'' patterns2 (entries (Recv (h ! p1)))
      then checkRecv h patterns1 patterns2 else False)"

definition sameListOfPatterns :: "heap \<Rightarrow> nat list \<Rightarrow> nat list \<Rightarrow> bool" where
  "sameListOfPatterns h patterns1 patterns2 =
     (if \<not> checkSend h patterns1 patterns2 then False
      else if \<not> checkRecv h patterns1 patterns2 then False
      else True)"

definition Same :: "heap \<Rightarrow> Data \<Rightarrow> Data \<Rightarrow> bool" where
  "Same h patterns1 patterns2 =
     sameListOfPatterns h (AllPatterns patterns1) (AllPatterns patterns2)"

section \<open>Formatting and files\<close>

text \<open>
  \<open>fmt.Sprintf("%d", i)\<close>: the decimal digits of \<open>i\<close>, with a minus sign when negative.
\<close>

function digits :: "nat \<Rightarrow> string" where
  "digits n = (if n < 10 then [''0123456789'' ! n]
               else digits (n div 10) @ [''0123456789'' ! (n mod 10)])"
  by pat_completeness auto
termination
  by (relation "measure (\<lambda>n. n)") auto

declare digits.simps [simp del]

definition itoa :: "int \<Rightarrow> string" where
  "itoa i = (if i < 0 then CHR ''-'' # digits (nat (- i)) else digits (nat i))"

text \<open>
  An \<open>os.File\<close> open for writing: the bytes written so far, and how many more calls of
  \<open>WriteString\<close> succeed (\<open>None\<close>: all of them). A call that fails writes nothing and
  returns an error.
\<close>

record osFile =
  written :: string
  quota :: "nat option"

definition WriteString :: "string \<Rightarrow> osFile \<Rightarrow> error option \<times> osFile" where
  "WriteString s fd =
     (case quota fd of
        None \<Rightarrow> (None, fd\<lparr>written := written fd @ s\<rparr>)
      | Some 0 \<Rightarrow> (Some (External ''write''), fd)
      | Some (Suc k) \<Rightarrow> (None, fd\<lparr>written := written fd @ s, quota := Some k\<rparr>))"

text \<open>
  \<open>thenDo f g\<close> is the source's \<open>err := f(); if err != nil { return err }; g()\<close>, and
  \<open>forEach f xs\<close> is \<open>for _, x := range xs { err := f(x); if err != nil { return err } }\<close>.
\<close>

definition thenDo ::
  "(osFile \<Rightarrow> error option \<times> osFile) \<Rightarrow> (osFile \<Rightarrow> error option \<times> osFile)
   \<Rightarrow> osFile \<Rightarrow> error option \<times> osFile" where
  "thenDo f g fd = (case f fd of (Some err, fd') \<Rightarrow> (Some err, fd') | (None, fd') \<Rightarrow> g fd')"

fun forEach ::
  "('a \<Rightarrow> osFile \<Rightarrow> error option \<times> osFile) \<Rightarrow> 'a list \<Rightarrow> osFile \<Rightarrow> error option \<times> osFile" where
  "forEach f [] fd = (None, fd)"
| "forEach f (x # xs) fd =
     (case f x fd of (Some err, fd') \<Rightarrow> (Some err, fd') | (None, fd') \<Rightarrow> forEach f xs fd')"

section \<open>Writing buckets\<close>

text \<open>
  \<open>writeDataToFile\<close>: one line per entry of the send map, then one per entry of the
  receive map. Each of the two \<open>range\<close> statements visits its map in the order chosen at
  this execution: \<open>orders\<close> holds the order of the range over \<open>Send\<close> and the order of the
  range over \<open>Recv\<close>.
\<close>

definition sentLine :: "int \<times> int \<Rightarrow> string" where
  "sentLine e = (case e of (sendTo, n) \<Rightarrow>
     itoa n @ '' ranks sent to '' @ itoa sendTo @ '' other ranks\<newline>'')"

definition recvLine :: "int \<times> int \<Rightarrow> string" where
  "recvLine e = (case e of (recvFrom, n) \<Rightarrow>
     itoa n @ '' ranks recv'd from '' @ itoa recvFrom @ '' other ranks\<newline>'')"

definition writeDataToFile ::
  "rangeOrder \<times> rangeOrder \<Rightarrow> CallData \<Rightarrow> osFile \<Rightarrow> error option \<times> osFile" where
  "writeDataToFile orders cd =
     thenDo (forEach (\<lambda>e. WriteString (sentLine e)) (rangeOver (fst orders) (entries (Send cd))))
            (forEach (\<lambda>e. WriteString (recvLine e)) (rangeOver (snd orders) (entries (Recv cd))))"

text \<open>
  \<open>WriteToFile\<close>. \<open>notation.CompressIntArray\<close> is outside the sources and is the parameter
  \<open>CompressIntArray\<close>; \<open>orders\<close> is for the call of \<open>writeDataToFile\<close>.
\<close>

definition WriteToFile ::
  "(int list \<Rightarrow> string) \<Rightarrow> rangeOrder \<times> rangeOrder \<Rightarrow> int \<Rightarrow> int \<Rightarrow> CallData
   \<Rightarrow> osFile \<Rightarrow> error option \<times> osFile" where
  "WriteToFile CompressIntArray orders num totalNumCalls cd =
     thenDo (WriteString (''## Pattern #'' @ itoa num @ '' ('' @ itoa (Count cd) @ ''/''
                          @ itoa totalNumCalls @ '' alltoallv calls)\<newline>\<newline>''))
    (thenDo (WriteString (''Alltoallv calls: '' @ CompressIntArray (Calls cd) @ ''\<newline>''))
    (thenDo (writeDataToFile orders cd)
            (WriteString ''\<newline>'')))"

text \<open>
  The part of \<open>SaveStats\<close> that writes the patterns file: the title line, then every
  bucket of \<open>AllPatterns\<close> with its number. \<open>orders num\<close> holds the orders of the two ranges
  executed for bucket number \<open>num\<close>.
\<close>

fun writeAllPatterns ::
  "(int list \<Rightarrow> string) \<Rightarrow> (int \<Rightarrow> rangeOrder \<times> rangeOrder) \<Rightarrow> heap \<Rightarrow> int \<Rightarrow> int \<Rightarrow> nat list
   \<Rightarrow> osFile \<Rightarrow> error option \<times> osFile" where
  "writeAllPatterns CompressIntArray orders h numCalls num [] fd = (None, fd)"
| "writeAllPatterns CompressIntArray orders h numCalls num (cp # cps) fd =
     (case WriteToFile CompressIntArray (orders num) num numCalls (h ! cp) fd of
        (Some err, fd') \<Rightarrow> (Some err, fd')
      | (None, fd') \<Rightarrow> writeAllPatterns CompressIntArray orders h numCalls (num + 1) cps fd')"

definition SaveStats_patterns ::
  "(int list \<Rightarrow> string) \<Rightarrow> (int \<Rightarrow> rangeOrder \<times> rangeOrder) \<Rightarrow> heap \<Rightarrow> Data \<Rightarrow> int
   \<Rightarrow> osFile \<Rightarrow> error option \<times> osFile" where
  "SaveStats_patterns CompressIntArray orders h patternsData numCalls =
     thenDo (WriteString ''# Patterns\<newline>'')
            (writeAllPatterns CompressIntArray orders h numCalls 0 (AllPatterns patternsData))"

section \<open>The consolidated report\<close>

text \<open>
  A Go map from ranks to values is an association list; indexing a missing key gives the
  zero value. \<open>AnalyzeSubCommsResults\<close> executes one \<open>range\<close> over each of its two maps, and
  the list is in the order in which that \<open>range\<close> visits the map.
\<close>

definition lookupData :: "(int \<times> Data) list \<Rightarrow> int \<Rightarrow> Data" where
  "lookupData patterns r = (case map_of patterns r of None \<Rightarrow> zero_Data | Some d \<Rightarrow> d)"

definition lookupStats :: "(int \<times> SendRecvStats) list \<Rightarrow> int \<Rightarrow> SendRecvStats" where
  "lookupStats stats r = (case map_of stats r of None \<Rightarrow> zero_SendRecvStats | Some s \<Rightarrow> s)"

text \<open>The loop over one view that numbers its patterns.\<close>

fun patternCountLines ::
  "heap \<Rightarrow> int \<Rightarrow> int \<Rightarrow> nat list \<Rightarrow> osFile \<Rightarrow> error option \<times> osFile" where
  "patternCountLines h totalNumCalls num [] fd = (None, fd)"
| "patternCountLines h totalNumCalls num (p # ps) fd =
     (case WriteString (CHR 0x09 # ''pattern #'' @ itoa num @ '': '' @ itoa (Count (h ! p)) @ ''/''
                        @ itoa totalNumCalls @ '' alltoallv calls\<newline>'') fd of
        (Some err, fd') \<Rightarrow> (Some err, fd')
      | (None, fd') \<Rightarrow> patternCountLines h totalNumCalls (num + 1) ps fd')"

text \<open>
  \<open>WriteSubcommNtoNPatterns\<close>, \<open>WriteSubcomm1toNPatterns\<close> and \<open>WriteSubcommNto1Patterns\<close>
  are the same function up to the title and the view they print. \<open>patterns[ranks[0]]\<close>
  panics when \<open>ranks\<close> is empty. \<open>orders i\<close> holds the orders of the two ranges executed
  by the call of \<open>writeDataToFile\<close> for the pattern at index \<open>i\<close> of the view.
\<close>

definition WriteSubcommPatterns ::
  "string \<Rightarrow> (Data \<Rightarrow> nat list) \<Rightarrow> (nat \<Rightarrow> rangeOrder \<times> rangeOrder) \<Rightarrow> heap \<Rightarrow> int list
   \<Rightarrow> (int \<times> SendRecvStats) list \<Rightarrow> (int \<times> Data) list \<Rightarrow> osFile \<Rightarrow> error option \<times> osFile" where
  "WriteSubcommPatterns title view orders h ranks stats patterns =
     thenDo (WriteString title)
    (thenDo (WriteString ''\<newline>### Pattern(s) description\<newline>\<newline>'')
    (thenDo (\<lambda>fd. case ranks of
                     [] \<Rightarrow> (Some PanicIndexOutOfRange, fd)
                   | r0 # _ \<Rightarrow> forEach (\<lambda>(i, p). writeDataToFile (orders i) (h ! p))
                                       (enumerate 0 (view (lookupData patterns r0))) fd)
    (thenDo (WriteString ''\<newline>\<newline>### Sub-communicator(s) information\<newline>\<newline>'')
            (forEach (\<lambda>r. thenDo
                        (WriteString (''-> Subcommunicator led by rank '' @ itoa r @ '':\<newline>''))
                        (patternCountLines h (TotalNumCalls (lookupStats stats r)) 0
                           (view (lookupData patterns r))))
                     ranks))))"

definition WriteSubcommNtoNPatterns ::
  "(nat \<Rightarrow> rangeOrder \<times> rangeOrder) \<Rightarrow> heap \<Rightarrow> int list \<Rightarrow> (int \<times> SendRecvStats) list
   \<Rightarrow> (int \<times> Data) list \<Rightarrow> osFile \<Rightarrow> error option \<times> osFile" where
  "WriteSubcommNtoNPatterns = WriteSubcommPatterns ''## N to n patterns\<newline>\<newline>'' NToN"

definition WriteSubcomm1toNPatterns ::
  "(nat \<Rightarrow> rangeOrder \<times> rangeOrder) \<Rightarrow> heap \<Rightarrow> int list \<Rightarrow> (int \<times> SendRecvStats) list
   \<Rightarrow> (int \<times> Data) list \<Rightarrow> osFile \<Rightarrow> error option \<times> osFile" where
  "WriteSubcomm1toNPatterns = WriteSubcommPatterns ''## 1 to n patterns\<newline>\<newline>'' OneToN"

definition WriteSubcommNto1Patterns ::
  "(nat \<Rightarrow> rangeOrder \<times> rangeOrder) \<Rightarrow> heap \<Rightarrow> int list \<Rightarrow> (int \<times> SendRecvStats) list
   \<Rightarrow> (int \<times> Data) list \<Rightarrow> osFile \<Rightarrow> error option \<times> osFile" where
  "WriteSubcommNto1Patterns = WriteSubcommPatterns ''## N to 1 patterns\<newline>\<newline>'' NToOne"

text \<open>The tally of calls that exchange no data, one line per group that has any.\<close>

definition emptyTallyLine ::
  "(int \<times> SendRecvStats) list \<Rightarrow> (int \<times> Data) list \<Rightarrow> int \<Rightarrow> osFile \<Rightarrow> error option \<times> osFile" where
  "emptyTallyLine stats allPatterns rank fd =
     (if length (Empty (lookupData allPatterns rank)) > 0
      then WriteString (''-> Sub-communicator led by rank '' @ itoa rank @ '': ''
                        @ itoa (int (length (Empty (lookupData allPatterns rank)))) @ ''/''
                        @ itoa (TotalNumCalls (lookupStats stats rank))
                        @ '' alltoallv calls\<newline>'') fd
      else (None, fd))"

text \<open>The lines of one bin.\<close>

definition binLine :: "Bin \<Rightarrow> osFile \<Rightarrow> error option \<times> osFile" where
  "binLine b =
     (if Max_bin b \<noteq> - 1
      then WriteString (CHR 0x09 # itoa (Size_bin b) @ '' of the messages are of size between ''
                        @ itoa (Min_bin b) @ '' and '' @ itoa (Max_bin b - 1) @ '' bytes\<newline>'')
      else WriteString (CHR 0x09 # itoa (Size_bin b) @ '' of messages are larger or equal of ''
                        @ itoa (Min_bin b) @ '' bytes\<newline>''))"

text \<open>
  The second half of \<open>AnalyzeSubCommsResults\<close>, from the first write on. The ranks are
  the keys of \<open>stats\<close>, sorted; \<open>ranks[0]\<close> panics when there is none. \<open>orders 0\<close>,
  \<open>orders 1\<close> and \<open>orders 2\<close> hold the orders of the ranges executed while the N-to-N, the
  1-to-N and the N-to-1 section are written.
\<close>

definition writeSections ::
  "(nat \<Rightarrow> nat \<Rightarrow> rangeOrder \<times> rangeOrder) \<Rightarrow> heap \<Rightarrow> int list \<Rightarrow> (int \<times> SendRecvStats) list
   \<Rightarrow> (int \<times> Data) list \<Rightarrow> osFile \<Rightarrow> error option \<times> osFile" where
  "writeSections orders h ranks stats allPatterns fd =
     (case ranks of
        [] \<Rightarrow> (Some PanicIndexOutOfRange, fd)
      | r0 # _ \<Rightarrow>
         thenDo (\<lambda>fd. if length (NToN (lookupData allPatterns r0)) > 0
                       then WriteSubcommNtoNPatterns (orders 0) h ranks stats allPatterns fd else (None, fd))
        (thenDo (\<lambda>fd. if length (OneToN (lookupData allPatterns r0)) > 0
                       then WriteSubcomm1toNPatterns (orders 1) h ranks stats allPatterns fd else (None, fd))
        (thenDo (\<lambda>fd. if length (NToOne (lookupData allPatterns r0)) > 0
                       then WriteSubcommNto1Patterns (orders 2) h ranks stats allPatterns fd else (None, fd))
        (thenDo (WriteString ''\<newline>## All 0 counts pattern; no data exchanged\<newline>\<newline>'')
        (thenDo (forEach (emptyTallyLine stats allPatterns) ranks)
        (thenDo (WriteString ''\<newline># Counts analysis\<newline>\<newline>'')
                (forEach (\<lambda>rank. thenDo
                            (WriteString (''-> Sub-communicator led by rank '' @ itoa rank
                                          @ '':\<newline>''))
                            (forEach binLine (Bins (lookupStats stats rank))))
                         ranks)))))) fd)"

definition writeReport ::
  "(nat \<Rightarrow> nat \<Rightarrow> rangeOrder \<times> rangeOrder) \<Rightarrow> heap \<Rightarrow> (int \<times> SendRecvStats) list
   \<Rightarrow> (int \<times> Data) list \<Rightarrow> osFile \<Rightarrow> error option \<times> osFile" where
  "writeReport orders h stats allPatterns =
     thenDo (WriteString
               ''Alltoallv on sub-communicators detected.\<newline>\<newline># Patterns summary\<newline>\<newline>'')
            (writeSections orders h (sort (map fst stats)) stats allPatterns)"

text \<open>
  The first loop of \<open>AnalyzeSubCommsResults\<close> over the groups, in the order \<open>range\<close>
  visits them: \<open>False\<close> is the early \<open>return nil\<close>.
\<close>

fun similarLoop :: "heap \<Rightarrow> Data list \<Rightarrow> int \<Rightarrow> int \<Rightarrow> int \<Rightarrow> int \<Rightarrow> Data \<Rightarrow> bool" where
  "similarLoop h [] numPatterns numNtoNPatterns num1toNPatterns numNto1Patterns
     referencePatterns = True"
| "similarLoop h (p # ps) numPatterns numNtoNPatterns num1toNPatterns numNto1Patterns
     referencePatterns =
     (if numPatterns = - 1
      then similarLoop h ps (int (length (AllPatterns p))) (int (length (NToN p)))
             (int (length (OneToN p))) (int (length (NToOne p))) p
      else if numPatterns \<noteq> int (length (AllPatterns p))
              \<or> numNto1Patterns \<noteq> int (length (NToOne p))
              \<or> numNtoNPatterns \<noteq> int (length (NToN p))
              \<or> num1toNPatterns \<noteq> int (length (OneToN p))
      then False
      else if \<not> Same h referencePatterns p then False
      else similarLoop h ps numPatterns numNtoNPatterns num1toNPatterns numNto1Patterns
             referencePatterns)"

text \<open>
  \<open>AnalyzeSubCommsResults\<close>. \<open>open_ok\<close> says whether \<open>os.OpenFile\<close> succeeds, \<open>q\<close> is the
  quota of the file it opens and \<open>orders\<close> holds the orders of the ranges over signature
  maps executed while the report is written. The groups of \<open>allPatterns\<close> are listed in
  the order in which the one \<open>range\<close> over them visits them. The result is the returned
  error and the consolidated file: \<open>None\<close> when the function never creates it.
\<close>

definition AnalyzeSubCommsResults ::
  "bool \<Rightarrow> nat option \<Rightarrow> (nat \<Rightarrow> nat \<Rightarrow> rangeOrder \<times> rangeOrder) \<Rightarrow> heap
   \<Rightarrow> (int \<times> SendRecvStats) list \<Rightarrow> (int \<times> Data) list \<Rightarrow> error option \<times> osFile option" where
  "AnalyzeSubCommsResults open_ok q orders h stats allPatterns =
     (if \<not> similarLoop h (map snd allPatterns) (- 1) (- 1) (- 1) (- 1) zero_Data
      then (None, None)
      else if \<not> open_ok then (Some (External ''open''), None)
      else (case writeReport orders h stats allPatterns \<lparr>written = [], quota = q\<rparr> of
              (err, fd) \<Rightarrow> (err, Some fd)))"

section \<open>Reading the patterns file back\<close>

text \<open>
  A \<open>bufio.Reader\<close> is the text it has not read yet. \<open>ReadString('\n')\<close> returns the text
  up to and including the first newline and leaves the rest; when there is no newline
  it returns what is left together with \<open>io.EOF\<close>.
\<close>

definition ReadString :: "string \<Rightarrow> string \<times> error option \<times> string" where
  "ReadString reader =
     (if CHR 0x0A \<in> set reader
      then (takeWhile (\<lambda>c. c \<noteq> CHR 0x0A) reader @ [CHR 0x0A], None,
            tl (dropWhile (\<lambda>c. c \<noteq> CHR 0x0A) reader))
      else (reader, Some EOF, []))"

text \<open>\<open>strings.HasPrefix\<close>, \<open>strings.TrimLeft\<close> and \<open>strings.TrimRight\<close> (the last two take a set of characters).\<close>

definition HasPrefix :: "string \<Rightarrow> string \<Rightarrow> bool" where
  "HasPrefix s pre = (take (length pre) s = pre)"

definition TrimLeft :: "string \<Rightarrow> string \<Rightarrow> string" where
  "TrimLeft s cutset = dropWhile (\<lambda>c. c \<in> set cutset) s"

definition TrimRight :: "string \<Rightarrow> string \<Rightarrow> string" where
  "TrimRight s cutset = rev (dropWhile (\<lambda>c. c \<in> set cutset) (rev s))"

text \<open>
  \<open>GetPatternHeader\<close>. \<open>notation.ConvertCompressedCallListToIntSlice\<close> is outside the
  sources and is the parameter \<open>ConvertCompressedCallList\<close>. The result is the triple the
  source returns, and the reader after the call.
\<close>

definition GetPatternHeader ::
  "(string \<Rightarrow> int list \<times> error option) \<Rightarrow> string
   \<Rightarrow> (int list \<times> string \<times> error option) \<times> string" where
  "GetPatternHeader ConvertCompressedCallList reader =
     (case ReadString reader of
        (line, Some readerErr, reader1) \<Rightarrow> (([], [], Some readerErr), reader1)
      | (line, None, reader1) \<Rightarrow>
          if \<not> HasPrefix line ''## Pattern #''
          then (([], [], Some (NotAHeader line)), reader1)
          else (case ReadString reader1 of
                  (line2, Some readerErr, reader2) \<Rightarrow> (([], [], Some readerErr), reader2)
                | (line2, None, reader2) \<Rightarrow>
                    if \<not> HasPrefix line2 ''Alltoallv calls: ''
                    then (([], [], Some (NotAHeader line2)), reader2)
                    else (let callIDsStr =
                                TrimRight (TrimLeft line2 ''Alltoallv calls: '') ''\<newline>''
                          in (case ConvertCompressedCallList callIDsStr of
                                (callIDs, Some err) \<Rightarrow> ((callIDs, callIDsStr, Some err), reader2)
                              | (callIDs, None) \<Rightarrow> ((callIDs, callIDsStr, None), reader2)))))"

lemma ReadString_shorter:
  "ReadString reader = (line, None, reader1) \<Longrightarrow> length reader1 < length reader"
proof -
  assume a: "ReadString reader = (line, None, reader1)"
  then have nl: "CHR 0x0A \<in> set reader" and r1: "reader1 = tl (dropWhile (\<lambda>c. c \<noteq> CHR 0x0A) reader)"
    by (auto simp: ReadString_def split: if_splits)
  from nl have "dropWhile (\<lambda>c. c \<noteq> CHR 0x0A) reader \<noteq> []" by (simp add: dropWhile_eq_Nil_conv)
  then have "length (tl (dropWhile (\<lambda>c. c \<noteq> CHR 0x0A) reader))
             < length (dropWhile (\<lambda>c. c \<noteq> CHR 0x0A) reader)" by simp
  also have "\<dots> \<le> length reader" by (rule length_dropWhile_le)
  finally show ?thesis using r1 by simp
qed

lemma ReadString_not_longer:
  "ReadString reader = (line, err, reader1) \<Longrightarrow> length reader1 \<le> length reader"
proof -
  assume a: "ReadString reader = (line, err, reader1)"
  have "length (tl (dropWhile (\<lambda>c. c \<noteq> CHR 0x0A) reader)) \<le> length reader"
    using length_dropWhile_le[of "\<lambda>c. c \<noteq> CHR 0x0A" reader] by simp
  with a show ?thesis by (auto simp: ReadString_def split: if_splits)
qed

lemma GetPatternHeader_shorter:
  assumes "GetPatternHeader f reader = ((callIDs, callIDsStr, None), reader')"
  shows "length reader' < length reader"
proof -
  obtain line e1 reader1 where r1: "ReadString reader = (line, e1, reader1)"
    by (cases "ReadString reader") auto
  obtain line2 e2 reader2 where r2: "ReadString reader1 = (line2, e2, reader2)"
    by (cases "ReadString reader1") auto
  from assms r1 have e1: "e1 = None"
    by (cases e1) (auto simp: GetPatternHeader_def)
  from assms r1 r2 e1 have "reader' = reader2"
    by (cases e2) (auto simp: GetPatternHeader_def Let_def split: if_splits prod.splits option.splits)
  moreover have "length reader1 < length reader" using r1 e1 by (auto dest: ReadString_shorter)
  moreover have "length reader2 \<le> length reader1" using r2 by (rule ReadString_not_longer)
  ultimately show ?thesis by simp
qed

text \<open>
  \<open>getPatterns\<close>: the lines up to the first empty line; \<open>patterns\<close> is the text gathered so
  far. At \<open>io.EOF\<close> the loop stops and the text read with it is dropped.
\<close>

function getPatterns :: "string \<Rightarrow> string \<Rightarrow> (string \<times> error option) \<times> string" where
  "getPatterns reader patterns =
     (case ReadString reader of
        (line, Some readerErr, reader1) \<Rightarrow>
          if readerErr \<noteq> EOF then ((patterns, Some readerErr), reader1)
          else ((patterns, None), reader1)
      | (line, None, reader1) \<Rightarrow>
          if line = [] \<or> line = ''\<newline>'' then ((patterns, None), reader1)
          else if HasPrefix line ''Alltoallv calls: ''
          then ((patterns, Some (Compromised line)), reader1)
          else getPatterns reader1 (patterns @ line))"
  by pat_completeness auto
termination
  by (relation "measure (\<lambda>(reader, patterns). length reader)")
     (auto dest: ReadString_shorter[OF sym])

lemma getPatterns_not_longer:
  "length (snd (getPatterns reader patterns)) \<le> length reader"
proof (induction reader patterns rule: getPatterns.induct)
  case (1 reader patterns)
  obtain line err reader1 where rs: "ReadString reader = (line, err, reader1)"
    by (cases "ReadString reader") auto
  have le: "length reader1 \<le> length reader" using rs by (rule ReadString_not_longer)
  show ?case
  proof (cases err)
    case (Some e)
    with rs le show ?thesis by (subst getPatterns.simps) simp
  next
    case None
    show ?thesis
    proof (cases "line = [] \<or> line = ''\<newline>'' \<or> HasPrefix line ''Alltoallv calls: ''")
      case True
      with rs None le show ?thesis by (subst getPatterns.simps) auto
    next
      case False
      have "length (snd (getPatterns reader1 (patterns @ line))) \<le> length reader1"
        using "1.IH"[OF rs[symmetric] refl] None False by simp
      with rs None False le show ?thesis by (subst getPatterns.simps) simp
    qed
  qed
qed

text \<open>
  The loop of \<open>GetCall\<close> over the header blocks, and \<open>GetCall\<close> itself; \<open>file\<close> is the
  content of the patterns file of the rank, \<open>None\<close> when \<open>os.Open\<close> fails.
\<close>

function GetCall_loop ::
  "(string \<Rightarrow> int list \<times> error option) \<Rightarrow> int \<Rightarrow> string \<Rightarrow> string \<times> error option" where
  "GetCall_loop ConvertCompressedCallList callNum patternsReader =
     (case GetPatternHeader ConvertCompressedCallList patternsReader of
        ((callIDs, callIDsStr, Some err), reader1) \<Rightarrow>
          if err \<noteq> EOF then ([], Some (UnableToRead err))
          else ([], Some (UnableToFind callNum))
      | ((callIDs, callIDsStr, None), reader1) \<Rightarrow>
          if callNum \<in> set callIDs
          then (case getPatterns reader1 [] of
                  ((patterns, Some err), reader2) \<Rightarrow> ([], None)
                | ((patterns, None), reader2) \<Rightarrow> (patterns, None))
          else (case getPatterns reader1 [] of
                  ((patterns, Some err), reader2) \<Rightarrow> ([], None)
                | ((patterns, None), reader2) \<Rightarrow>
                    GetCall_loop ConvertCompressedCallList callNum reader2))"
  by pat_completeness auto
termination
proof (relation "measure (\<lambda>(f, callNum, reader). length reader)")
  show "wf (measure (\<lambda>(f, callNum, reader). length reader))" by simp
next
  fix f :: "string \<Rightarrow> int list \<times> error option" and callNum :: int
    and patternsReader reader1 reader2 patterns :: string
    and x :: "int list \<times> string \<times> error option" and callIDs y callIDsStr errh xg errg
  assume hdr: "(x, reader1) = GetPatternHeader f patternsReader"
    and x: "(callIDs, y) = x" "(callIDsStr, errh) = y" "errh = None"
    and gp: "(xg, reader2) = getPatterns reader1 []"
  have "length reader1 < length patternsReader"
    using hdr x GetPatternHeader_shorter[of f patternsReader callIDs callIDsStr reader1] by auto
  moreover have "length reader2 \<le> length reader1"
    using getPatterns_not_longer[of reader1 "[]"] gp[symmetric] by simp
  ultimately show "((f, callNum, reader2), (f, callNum, patternsReader))
        \<in> measure (\<lambda>(f, callNum, reader). length reader)" by simp
qed

definition GetCall ::
  "(string \<Rightarrow> int list \<times> error option) \<Rightarrow> string option \<Rightarrow> int \<Rightarrow> string \<times> error option" where
  "GetCall ConvertCompressedCallList file callNum =
     (case file of
        None \<Rightarrow> ([], Some (External ''open''))
      | Some patternsFd \<Rightarrow>
          (case ReadString patternsFd of
             (line, Some readerErr, patternsReader) \<Rightarrow> ([], Some readerErr)
           | (line, None, patternsReader) \<Rightarrow>
               if line \<noteq> ''# Patterns\<newline>'' then ([], Some (WrongFileFormat line))
               else GetCall_loop ConvertCompressedCallList callNum patternsReader))"

section \<open>Vocabulary of the statements\<close>

subsection \<open>Buckets and call histories\<close>

text \<open>
  \<open>matches x s r\<close> is the test of the first loop of \<open>addPattern\<close> on bucket \<open>x\<close>, and \<open>bump\<close>
  the update the loop makes on a match. A history is the list of calls fed to a
  collection, each with its call number and its two maps. \<open>fed cs x\<close> lists the call
  numbers of the calls of \<open>cs\<close> that bucket \<open>x\<close> matches; \<open>same_pair s r\<close> selects the calls
  whose maps compare equal to \<open>(s, r)\<close>. \<open>wf_calls\<close> and \<open>wf_bucket\<close> say that the maps involved
  are Go maps (one entry per key). \<open>sig_key\<close> is what \<open>CompareCallPatterns\<close> compares of such a
  map. \<open>consistent cs st\<close> says that the buckets of \<open>st\<close> are what feeding \<open>cs\<close> builds: each
  bucket holds the calls of \<open>cs\<close> it matches, no two buckets match each other, and every
  call of \<open>cs\<close> has its bucket.
\<close>

definition matches :: "CallData \<Rightarrow> gomap \<Rightarrow> gomap \<Rightarrow> bool" where
  "matches x s r = (CompareCallPatterns (Send x) s \<and> CompareCallPatterns (Recv x) r)"

definition bump :: "int \<Rightarrow> CallData \<Rightarrow> CallData" where
  "bump c x = x\<lparr>Count := Count x + 1, Calls := Calls x @ [c]\<rparr>"

definition fed :: "(int \<times> gomap \<times> gomap) list \<Rightarrow> CallData \<Rightarrow> int list" where
  "fed cs x = map fst (filter (\<lambda>(c, s, r). matches x s r) cs)"





definition wf_calls :: "(int \<times> gomap \<times> gomap) list \<Rightarrow> bool" where
  "wf_calls cs = (\<forall>(c, s, r) \<in> set cs. wf_map s \<and> wf_map r)"

definition wf_bucket :: "CallData \<Rightarrow> bool" where
  "wf_bucket x = (wf_map (Send x) \<and> wf_map (Recv x))"



subsection \<open>A pass of ParseFiles\<close>

text \<open>
  \<open>bucket_calls\<close> is the concatenation of the call lists of the buckets and \<open>total_count\<close> the
  sum of their counts. \<open>barrier\<close> is the test \<open>ParseFiles\<close> makes on the data of a call,
  \<open>emptyPattern i\<close> the record it then appends to \<open>Empty\<close>, and \<open>barrier_calls\<close> the calls below
  \<open>numCalls\<close> that pass the test. \<open>pf_inv h0 f i st\<close> is the invariant of the loop before
  iteration \<open>i\<close>, for a pass that started on the store \<open>h0\<close>.
\<close>

definition bucket_calls :: "heap \<Rightarrow> Data \<Rightarrow> int list" where
  "bucket_calls h d = concat (map (\<lambda>a. Calls (h ! a)) (AllPatterns d))"

definition total_count :: "heap \<Rightarrow> Data \<Rightarrow> int" where
  "total_count h d = sum_list (map (\<lambda>a. Count (h ! a)) (AllPatterns d))"

definition barrier :: "SendRecvStats \<Rightarrow> bool" where
  "barrier callCountsData =
     (TotalSendNonZeroCounts callCountsData = 0 \<and> TotalRecvNonZeroCounts callCountsData = 0)"

definition emptyPattern :: "int \<Rightarrow> CallData" where
  "emptyPattern i = \<lparr>Send = NilMap, Recv = NilMap, Count = 1, Calls = [i]\<rparr>"

definition barrier_calls :: "(int \<Rightarrow> SendRecvStats \<times> error option) \<Rightarrow> int \<Rightarrow> int list" where
  "barrier_calls counts_ParseFiles numCalls =
     filter (\<lambda>i. barrier (fst (counts_ParseFiles i))) [0..numCalls - 1]"

definition pf_inv ::
  "heap \<Rightarrow> (int \<Rightarrow> SendRecvStats \<times> error option) \<Rightarrow> int \<Rightarrow> heap \<times> Data \<Rightarrow> bool" where
  "pf_inv h0 counts_ParseFiles i st = (case st of (h, d) \<Rightarrow>
     distinct (AllPatterns d) \<and> distinct (Empty d)
     \<and> set (AllPatterns d) \<inter> set (Empty d) = {}
     \<and> length h0 \<le> length h
     \<and> (\<forall>a \<in> set (AllPatterns d) \<union> set (Empty d). length h0 \<le> a \<and> a < length h)
     \<and> mset (bucket_calls h d) = mset [0..i - 1]
     \<and> total_count h d = i
     \<and> map (\<lambda>a. h ! a) (Empty d) = map emptyPattern (barrier_calls counts_ParseFiles i))"

subsection \<open>Topology rules\<close>

text \<open>
  The three tests of the second loop of \<open>addPattern\<close> as the \<open>continue\<close> statements order
  them: an entry reaches the second test only when the first fails, and the third only
  when the first two fail. \<open>count_entry\<close> holds for an entry made of counts: both numbers
  are non-negative and their hundredfold fits a Go \<open>int\<close>. \<open>views_inv\<close> is the invariant of
  the views under \<open>addPattern\<close>.
\<close>

definition rule1toN :: "int \<times> int \<Rightarrow> bool" where
  "rule1toN e = (case e of (sendTo, n) \<Rightarrow> sendTo > wrap64 (n * 100))"

definition ruleNtoN :: "int \<times> int \<Rightarrow> bool" where
  "ruleNtoN e = (case e of (sendTo, n) \<Rightarrow> \<not> sendTo > wrap64 (n * 100) \<and> sendTo = n)"

definition ruleNto1 :: "int \<times> int \<Rightarrow> bool" where
  "ruleNto1 e = (case e of (sendTo, n) \<Rightarrow>
     \<not> sendTo > wrap64 (n * 100) \<and> sendTo \<noteq> n \<and> wrap64 (sendTo * 100) < n)"

definition count_entry :: "int \<times> int \<Rightarrow> bool" where
  "count_entry e = (case e of (peerCount, numRanks) \<Rightarrow>
     0 \<le> peerCount \<and> 0 \<le> numRanks
     \<and> peerCount * 100 < 9223372036854775808 \<and> numRanks * 100 < 9223372036854775808)"

definition views_inv :: "heap \<times> Data \<Rightarrow> bool" where
  "views_inv st = (case st of (h, d) \<Rightarrow>
     distinct (AllPatterns d)
     \<and> (\<forall>a \<in> set (AllPatterns d). a < length h)
     \<and> set (OneToN d) \<union> set (NToN d) \<union> set (NToOne d) \<subseteq> set (AllPatterns d)
     \<and> (\<forall>a \<in> set (AllPatterns d).
           count_list (OneToN d) a + count_list (NToN d) a + count_list (NToOne d) a
           \<le> len (Send (h ! a)))
     \<and> Empty d = [])"

subsection \<open>Groups\<close>

text \<open>The four lengths that \<open>AnalyzeSubCommsResults\<close> compares between groups.\<close>

definition view_lengths :: "Data \<Rightarrow> nat \<times> nat \<times> nat \<times> nat" where
  "view_lengths p = (length (AllPatterns p), length (NToOne p), length (NToN p), length (OneToN p))"

subsection \<open>Writers\<close>

text \<open>
  \<open>out f\<close> is what the writer \<open>f\<close> writes to an empty file on which every write succeeds;
  \<open>writer_ok f\<close> says that on every file on which every write succeeds \<open>f\<close> returns no
  error and appends \<open>out f\<close>. \<open>section_text\<close> is the text of one topology section of the
  report for a non-empty list of ranks: nothing when the view of the first rank is empty.
\<close>

definition emptyFile :: osFile where
  "emptyFile = \<lparr>written = [], quota = None\<rparr>"

definition out :: "(osFile \<Rightarrow> error option \<times> osFile) \<Rightarrow> string" where
  "out f = written (snd (f emptyFile))"

definition writer_ok :: "(osFile \<Rightarrow> error option \<times> osFile) \<Rightarrow> bool" where
  "writer_ok f = (\<forall>fd. quota fd = None \<longrightarrow> f fd = (None, fd\<lparr>written := written fd @ out f\<rparr>))"

definition section_text ::
  "(heap \<Rightarrow> int list \<Rightarrow> (int \<times> SendRecvStats) list \<Rightarrow> (int \<times> Data) list
     \<Rightarrow> osFile \<Rightarrow> error option \<times> osFile)
   \<Rightarrow> (Data \<Rightarrow> nat list) \<Rightarrow> heap \<Rightarrow> int list \<Rightarrow> (int \<times> SendRecvStats) list
   \<Rightarrow> (int \<times> Data) list \<Rightarrow> string" where
  "section_text writer view h ranks stats allPatterns =
     (if view (lookupData allPatterns (hd ranks)) = [] then []
      else out (writer h ranks stats allPatterns))"

text \<open>The buckets that the three topology sections describe: the views of one group.\<close>

definition printed :: "Data \<Rightarrow> nat list" where
  "printed d = NToN d @ OneToN d @ NToOne d"

definition report_title :: string where
  "report_title =
     ''Alltoallv on sub-communicators detected.\<newline>\<newline># Patterns summary\<newline>\<newline>''"

section \<open>Example inputs\<close>

text \<open>
  A history of four calls. Calls 0 and 2 carry the same signature pair, the send map of
  call 2 with its entries in the other order; calls 1 and 3 carry two more pairs. The
  store and the collection are what the four \<open>addPattern\<close> calls build.
\<close>

definition sig_a :: gomap where
  "sig_a = MkMap [(4, 4), (101, 1)]"

definition sig_a' :: gomap where
  "sig_a' = MkMap [(101, 1), (4, 4)]"

definition sig_b :: gomap where
  "sig_b = MkMap [(1, 2)]"

definition history :: "(int \<times> gomap \<times> gomap) list" where
  "history = [(0, sig_a, sig_a), (1, sig_b, sig_b), (2, sig_a', sig_a), (3, sig_b, sig_a)]"

definition history_heap :: heap where
  "history_heap =
     [\<lparr>Send = sig_a, Recv = sig_a, Count = 2, Calls = [0, 2]\<rparr>,
      \<lparr>Send = sig_b, Recv = sig_b, Count = 1, Calls = [1]\<rparr>,
      \<lparr>Send = sig_b, Recv = sig_a, Count = 1, Calls = [3]\<rparr>]"

definition history_Data :: Data where
  "history_Data =
     \<lparr>AllPatterns = [0, 1, 2], OneToN = [0], NToN = [0], NToOne = [], Empty = []\<rparr>"

text \<open>
  The same history followed by two more calls: call 4 carries \<open>{3: 2}\<close>, a signature with
  as many entries as \<open>sig_b\<close> and another key, and call 5 carries \<open>sig_b\<close> again.
\<close>

definition sig_c :: gomap where
  "sig_c = MkMap [(3, 2)]"




text \<open>
  Three calls as \<open>counts.ParseFiles\<close> reports them: call 1 exchanges no data, calls 0 and
  2 carry the signature \<open>sig_b\<close> in both directions.
\<close>

definition example_counts :: "int \<Rightarrow> SendRecvStats \<times> error option" where
  "example_counts i =
     (if i = 1 then zero_SendRecvStats
      else zero_SendRecvStats\<lparr>SendPatterns := sig_b, RecvPatterns := sig_b,
             TotalSendNonZeroCounts := 2, TotalRecvNonZeroCounts := 2\<rparr>, None)"

text \<open>
  A send signature with an entry for each rule of the topology test, and two entries that
  pass none.
\<close>

definition sig_mixed :: gomap where
  "sig_mixed = MkMap [(101, 1), (4, 4), (6, 5), (1, 101), (100, 1)]"

text \<open>
  Two groups of one call each, built on one store: the send and receive maps of the first
  are \<open>{1: 2}\<close>, those of the second \<open>{3: 2}\<close>.
\<close>

definition two_groups_heap :: heap where
  "two_groups_heap =
     [\<lparr>Send = sig_b, Recv = sig_b, Count = 1, Calls = [0]\<rparr>,
      \<lparr>Send = sig_c, Recv = sig_c, Count = 1, Calls = [0]\<rparr>]"

definition group_b :: Data where
  "group_b = \<lparr>AllPatterns = [0], OneToN = [], NToN = [], NToOne = [], Empty = []\<rparr>"

definition group_c :: Data where
  "group_c = \<lparr>AllPatterns = [1], OneToN = [], NToN = [], NToOne = [], Empty = []\<rparr>"

text \<open>Two groups for the report writer.\<close>

definition two_stats :: "(int \<times> SendRecvStats) list" where
  "two_stats = [(3, zero_SendRecvStats\<lparr>TotalNumCalls := 4\<rparr>),
                (0, zero_SendRecvStats\<lparr>TotalNumCalls := 4\<rparr>)]"

definition two_patterns :: "(int \<times> Data) list" where
  "two_patterns = [(3, history_Data), (0, history_Data)]"


text \<open>
  Two groups of one call each, built on one store: the maps of the first are \<open>{1: 2}\<close>,
  those of the second \<open>{1: 2, 5: 3}\<close>. Neither bucket passes a topology rule.
\<close>

definition sig_d :: gomap where
  "sig_d = MkMap [(1, 2), (5, 3)]"

definition wide_heap :: heap where
  "wide_heap =
     [\<lparr>Send = sig_b, Recv = sig_b, Count = 1, Calls = [0]\<rparr>,
      \<lparr>Send = sig_d, Recv = sig_d, Count = 1, Calls = [0]\<rparr>]"

definition group_narrow :: Data where
  "group_narrow = \<lparr>AllPatterns = [0], OneToN = [], NToN = [], NToOne = [], Empty = []\<rparr>"

definition group_wide :: Data where
  "group_wide = \<lparr>AllPatterns = [1], OneToN = [], NToN = [], NToOne = [], Empty = []\<rparr>"

definition two_ranks :: "(int \<times> SendRecvStats) list" where
  "two_ranks = [(0, zero_SendRecvStats), (1, zero_SendRecvStats)]"

text \<open>Every \<open>range\<close> over a signature map visits the entries as they are listed.\<close>

definition as_listed :: "nat \<Rightarrow> nat \<Rightarrow> rangeOrder \<times> rangeOrder" where
  "as_listed s i = ([], [])"

text \<open>
  The range over the send map of the first bucket of the N-to-N section visits the second
  entry first; every other range visits the entries as they are listed.
\<close>

definition swap_NtoN :: "nat \<Rightarrow> nat \<Rightarrow> rangeOrder \<times> rangeOrder" where
  "swap_NtoN s i = (if s = 0 \<and> i = 0 then ([1, 0], []) else ([], []))"

text \<open>A group of one bucket in the N-to-N view, its maps of one entry each.\<close>

definition single_heap :: heap where
  "single_heap = [\<lparr>Send = MkMap [(4, 4)], Recv = MkMap [(4, 4)], Count = 1, Calls = [0]\<rparr>]"

definition single_Data :: Data where
  "single_Data = \<lparr>AllPatterns = [0], OneToN = [], NToN = [0], NToOne = [], Empty = []\<rparr>"

text \<open>
  The report for the two groups of \<open>two_patterns\<close>, given the text of bucket 0 in the
  N-to-N section and its text in the 1-to-N section, and the two texts of bucket 0.
\<close>

definition bucket0_listed :: string where
  "bucket0_listed =
     ''4 ranks sent to 4 other ranks\<newline>1 ranks sent to 101 other ranks\<newline>''
     @ ''4 ranks recv'd from 4 other ranks\<newline>1 ranks recv'd from 101 other ranks\<newline>''"

definition bucket0_swapped :: string where
  "bucket0_swapped =
     ''1 ranks sent to 101 other ranks\<newline>4 ranks sent to 4 other ranks\<newline>''
     @ ''4 ranks recv'd from 4 other ranks\<newline>1 ranks recv'd from 101 other ranks\<newline>''"

definition example_counts_text :: string where
  "example_counts_text =
     ''\<newline>\<newline>### Sub-communicator(s) information\<newline>\<newline>''
     @ ''-> Subcommunicator led by rank 0:\<newline>''
     @ CHR 0x09 # ''pattern #0: 2/4 alltoallv calls\<newline>''
     @ ''-> Subcommunicator led by rank 3:\<newline>''
     @ CHR 0x09 # ''pattern #0: 2/4 alltoallv calls\<newline>''"

definition example_report :: "string \<Rightarrow> string \<Rightarrow> string" where
  "example_report inNtoN in1toN =
     ''Alltoallv on sub-communicators detected.\<newline>\<newline># Patterns summary\<newline>\<newline>''
     @ ''## N to n patterns\<newline>\<newline>'' @ ''\<newline>### Pattern(s) description\<newline>\<newline>''
     @ inNtoN @ example_counts_text
     @ ''## 1 to n patterns\<newline>\<newline>'' @ ''\<newline>### Pattern(s) description\<newline>\<newline>''
     @ in1toN @ example_counts_text
     @ ''\<newline>## All 0 counts pattern; no data exchanged\<newline>\<newline>''
     @ ''\<newline># Counts analysis\<newline>\<newline>''
     @ ''-> Sub-communicator led by rank 0:\<newline>''
     @ ''-> Sub-communicator led by rank 3:\<newline>''"
section \<open>Lemmas\<close>

subsection \<open>CompareCallPatterns is map equality\<close>








subsection \<open>The two loops of addPattern\<close>

lemma mergeLoop_None:
  "mergeLoop h xs c s r = None \<longleftrightarrow> (\<forall>x \<in> set xs. \<not> matches (h ! x) s r)"
  by (induction xs) (auto simp: matches_def)

lemma mergeLoop_Some:
  "mergeLoop h xs c s r = Some h' \<Longrightarrow>
   \<exists>pre x post. xs = pre @ x # post \<and> (\<forall>y \<in> set pre. \<not> matches (h ! y) s r)
       \<and> matches (h ! x) s r \<and> h' = h[x := bump c (h ! x)]"
proof (induction xs)
  case Nil
  then show ?case by simp
next
  case (Cons y ys)
  show ?case
  proof (cases "matches (h ! y) s r")
    case True
    with Cons.prems have "h' = h[y := bump c (h ! y)]"
      by (simp add: matches_def bump_def)
    with True show ?thesis by (intro exI[of _ "[]"] exI[of _ y] exI[of _ ys]) simp
  next
    case False
    with Cons.prems have "mergeLoop h ys c s r = Some h'"
      by (auto simp: matches_def split: if_splits)
    from Cons.IH[OF this] obtain pre x post where
      *: "ys = pre @ x # post" "\<forall>y \<in> set pre. \<not> matches (h ! y) s r"
         "matches (h ! x) s r" "h' = h[x := bump c (h ! x)]" by blast
    with False show ?thesis
      by (intro exI[of _ "y # pre"] exI[of _ x] exI[of _ post]) simp
  qed
qed

lemma detectLoop_AllPatterns [simp]: "AllPatterns (detectLoop p es d) = AllPatterns d"
  by (induction p es d rule: detectLoop.induct) simp_all

lemma detectLoop_Empty [simp]: "Empty (detectLoop p es d) = Empty d"
  by (induction p es d rule: detectLoop.induct) simp_all


lemma fed_bump [simp]: "fed cs (bump c x) = fed cs x"
  by (simp add: fed_def matches_def bump_def)

lemma matches_bump [simp]: "matches (bump c x) s r = matches x s r"
  by (simp add: matches_def bump_def)

lemma wf_bucket_bump [simp]: "wf_bucket (bump c x) = wf_bucket x"
  by (simp add: wf_bucket_def bump_def)

subsection \<open>addPattern keeps a collection consistent with its history\<close>










subsection \<open>What one addPattern call changes\<close>

lemma detectLoop_views:
  "OneToN (detectLoop p es d) = OneToN d @ replicate (length (filter rule1toN es)) p
   \<and> NToN (detectLoop p es d) = NToN d @ replicate (length (filter ruleNtoN es)) p
   \<and> NToOne (detectLoop p es d) = NToOne d @ replicate (length (filter ruleNto1 es)) p"
proof (induction p es d rule: detectLoop.induct)
  case (1 new_cp d)
  then show ?case by simp
next
  case (2 new_cp sendTo n es d)
  then show ?case
    by (simp add: rule1toN_def ruleNtoN_def ruleNto1_def replicate_app_Cons_same)
qed

lemma addPattern_cases:
  obtains (merge) pre x post where
      "AllPatterns d = pre @ x # post" "\<forall>y \<in> set pre. \<not> matches (h ! y) s r"
      "matches (h ! x) s r" "addPattern c s r (h, d) = (h[x := bump c (h ! x)], d)"
  | (new) "\<forall>b \<in> set (AllPatterns d). \<not> matches (h ! b) s r"
      "addPattern c s r (h, d) =
         (h @ [\<lparr>Send = s, Recv = r, Count = 1, Calls = [c]\<rparr>],
          detectLoop (length h) (entries s) (d\<lparr>AllPatterns := AllPatterns d @ [length h]\<rparr>))"
proof (cases "mergeLoop h (AllPatterns d) c s r")
  case None
  then have "\<forall>b \<in> set (AllPatterns d). \<not> matches (h ! b) s r" by (simp add: mergeLoop_None)
  moreover have "addPattern c s r (h, d) =
         (h @ [\<lparr>Send = s, Recv = r, Count = 1, Calls = [c]\<rparr>],
          detectLoop (length h) (entries s) (d\<lparr>AllPatterns := AllPatterns d @ [length h]\<rparr>))"
    using None by (simp add: addPattern_def Let_def)
  ultimately show ?thesis by (rule new)
next
  case (Some h')
  from mergeLoop_Some[OF Some] obtain pre x post where
    *: "AllPatterns d = pre @ x # post" "\<forall>y \<in> set pre. \<not> matches (h ! y) s r"
       "matches (h ! x) s r" "h' = h[x := bump c (h ! x)]" by blast
  have "addPattern c s r (h, d) = (h[x := bump c (h ! x)], d)"
    using Some *(4) by (simp add: addPattern_def)
  with * show ?thesis by (intro merge)
qed

lemma map_nth_update_other:
  "x \<notin> set xs \<Longrightarrow> map (\<lambda>a. f (h[x := v] ! a)) xs = map (\<lambda>a. f (h ! a)) xs"
  by (induction xs) auto

lemma addPattern_effect:
  assumes dist: "distinct (AllPatterns d)" and bound: "\<forall>a \<in> set (AllPatterns d). a < length h"
    and res: "addPattern c s r (h, d) = (h', d')"
  shows "distinct (AllPatterns d')"
    and "\<forall>a \<in> set (AllPatterns d'). a < length h'"
    and "length h \<le> length h'"
    and "set (AllPatterns d') \<subseteq> set (AllPatterns d) \<union> {length h}"
    and "set (AllPatterns d) \<subseteq> set (AllPatterns d')"
    and "\<forall>a. a < length h \<and> a \<notin> set (AllPatterns d) \<longrightarrow> h' ! a = h ! a"
    and "Empty d' = Empty d"
    and "mset (bucket_calls h' d') = mset (bucket_calls h d) + {#c#}"
    and "total_count h' d' = total_count h d + 1"
proof -
  have "distinct (AllPatterns d') \<and> (\<forall>a \<in> set (AllPatterns d'). a < length h')
    \<and> length h \<le> length h' \<and> set (AllPatterns d') \<subseteq> set (AllPatterns d) \<union> {length h}
    \<and> set (AllPatterns d) \<subseteq> set (AllPatterns d')
    \<and> (\<forall>a. a < length h \<and> a \<notin> set (AllPatterns d) \<longrightarrow> h' ! a = h ! a)
    \<and> Empty d' = Empty d
    \<and> mset (bucket_calls h' d') = mset (bucket_calls h d) + {#c#}
    \<and> total_count h' d' = total_count h d + 1"
  proof (cases rule: addPattern_cases[of d h s r c])
    case (merge pre x post)
    from res merge(4) have eq: "h' = h[x := bump c (h ! x)]" "d' = d" by simp_all
    from dist merge(1) have nx: "x \<notin> set pre" "x \<notin> set post" by auto
    from bound merge(1) have xl: "x < length h" by simp
    have calls: "Calls (bump c (h ! x)) = Calls (h ! x) @ [c]"
      and cnt: "Count (bump c (h ! x)) = Count (h ! x) + 1" by (simp_all add: bump_def)
    have bc: "bucket_calls h' d' = concat (map (\<lambda>a. Calls (h ! a)) pre) @ (Calls (h ! x) @ [c])
                 @ concat (map (\<lambda>a. Calls (h ! a)) post)"
      using nx xl by (simp add: bucket_calls_def eq merge(1) map_nth_update_other calls)
    have tc: "total_count h' d' = sum_list (map (\<lambda>a. Count (h ! a)) pre) + (Count (h ! x) + 1)
                 + sum_list (map (\<lambda>a. Count (h ! a)) post)"
      using nx xl by (simp add: total_count_def eq merge(1) map_nth_update_other cnt)
    have "mset (bucket_calls h' d') = mset (bucket_calls h d) + {#c#}"
      by (simp add: bc) (simp add: bucket_calls_def merge(1))
    moreover have "total_count h' d' = total_count h d + 1"
      by (simp add: tc) (simp add: total_count_def merge(1))
    moreover have "\<forall>a. a < length h \<and> a \<notin> set (AllPatterns d) \<longrightarrow> h' ! a = h ! a"
      using merge(1) by (auto simp: eq)
    ultimately show ?thesis using dist bound by (auto simp: eq)
  next
    case new
    define nb where "nb = \<lparr>Send = s, Recv = r, Count = 1, Calls = [c]\<rparr>"
    from res new(2) have eq: "h' = h @ [nb]"
      "d' = detectLoop (length h) (entries s) (d\<lparr>AllPatterns := AllPatterns d @ [length h]\<rparr>)"
      by (simp_all add: nb_def)
    have AP: "AllPatterns d' = AllPatterns d @ [length h]" by (simp add: eq)
    have old: "map (\<lambda>a. f (h' ! a)) (AllPatterns d) = map (\<lambda>a. f (h ! a)) (AllPatterns d)" for f
      using bound by (simp add: eq nth_append)
    have "mset (bucket_calls h' d') = mset (bucket_calls h d) + {#c#}"
      by (simp add: bucket_calls_def AP old) (simp add: eq nb_def)
    moreover have "total_count h' d' = total_count h d + 1"
      by (simp add: total_count_def AP old) (simp add: eq nb_def)
    moreover have "distinct (AllPatterns d')" using dist bound by (auto simp: AP)
    moreover have "\<forall>a \<in> set (AllPatterns d'). a < length h'"
      using bound by (auto simp: AP eq)
    moreover have "\<forall>a. a < length h \<and> a \<notin> set (AllPatterns d) \<longrightarrow> h' ! a = h ! a"
      by (simp add: eq nth_append)
    moreover have "Empty d' = Empty d" by (simp add: eq)
    ultimately show ?thesis by (auto simp: AP eq)
  qed
  then show "distinct (AllPatterns d')"
    and "\<forall>a \<in> set (AllPatterns d'). a < length h'"
    and "length h \<le> length h'"
    and "set (AllPatterns d') \<subseteq> set (AllPatterns d) \<union> {length h}"
    and "set (AllPatterns d) \<subseteq> set (AllPatterns d')"
    and "\<forall>a. a < length h \<and> a \<notin> set (AllPatterns d) \<longrightarrow> h' ! a = h ! a"
    and "Empty d' = Empty d"
    and "mset (bucket_calls h' d') = mset (bucket_calls h d) + {#c#}"
    and "total_count h' d' = total_count h d + 1"
    by blast+
qed

subsection \<open>The invariant of the ParseFiles loop\<close>

lemma pf_inv_init: "pf_inv h0 f 0 (h0, zero_Data)"
  by (simp add: pf_inv_def zero_Data_def bucket_calls_def total_count_def barrier_calls_def)

lemma upto_snoc: "0 \<le> i \<Longrightarrow> [0..i] = [0..i - 1] @ [i]"
  using upto_rec2[of 0 i] by simp

lemma pf_inv_step:
  assumes inv: "pf_inv h0 f i st" and i0: "0 \<le> i" and ok: "f i = (cd, None)"
  shows "pf_inv h0 f (i + 1) (trackEmpty i cd (addPattern i (SendPatterns cd) (RecvPatterns cd) st))"
proof -
  obtain h d where st: "st = (h, d)" by (cases st)
  obtain h1 d1 where ap: "addPattern i (SendPatterns cd) (RecvPatterns cd) (h, d) = (h1, d1)"
    by (cases "addPattern i (SendPatterns cd) (RecvPatterns cd) (h, d)")
  from inv st have dist: "distinct (AllPatterns d)" and distE: "distinct (Empty d)"
    and disj: "set (AllPatterns d) \<inter> set (Empty d) = {}"
    and h0h: "length h0 \<le> length h"
    and bnd: "\<forall>a \<in> set (AllPatterns d) \<union> set (Empty d). length h0 \<le> a \<and> a < length h"
    and calls: "mset (bucket_calls h d) = mset [0..i - 1]"
    and tot: "total_count h d = i"
    and emp: "map (\<lambda>a. h ! a) (Empty d) = map emptyPattern (barrier_calls f i)"
    by (simp_all add: pf_inv_def)
  have bndA: "length h0 \<le> a \<and> a < length h" if "a \<in> set (AllPatterns d)" for a
    using bnd that by blast
  have bndE: "length h0 \<le> a \<and> a < length h" if "a \<in> set (Empty d)" for a
    using bnd that by blast
  have bAP: "\<forall>a \<in> set (AllPatterns d). a < length h" using bndA by blast
  note eff = addPattern_effect[OF dist bAP ap]
  have E1: "Empty d1 = Empty d" by (rule eff(7))
  have up: "[0..i] = [0..i - 1] @ [i]" by (rule upto_snoc[OF i0])
  have "barrier_calls f (i + 1) = filter (\<lambda>i. barrier (fst (f i))) [0..i]"
    by (simp add: barrier_calls_def)
  also have "\<dots> = filter (\<lambda>i. barrier (fst (f i))) ([0..i - 1] @ [i])" using up by simp
  also have "\<dots> = barrier_calls f i @ (if barrier cd then [i] else [])"
    using ok by (simp add: barrier_calls_def)
  finally have bc: "barrier_calls f (i + 1) = barrier_calls f i @ (if barrier cd then [i] else [])" .
  have up1: "mset [0..i + 1 - 1] = mset [0..i - 1] + {#i#}" using up by simp
  have keepE: "map (\<lambda>a. h1 ! a) (Empty d) = map (\<lambda>a. h ! a) (Empty d)"
  proof (rule map_cong[OF refl])
    fix a assume a: "a \<in> set (Empty d)"
    then have "a < length h" "a \<notin> set (AllPatterns d)" using bndE disj by auto
    then show "h1 ! a = h ! a" using eff(6) by blast
  qed
  have nE: "length h \<notin> set (Empty d)" using bndE by fastforce
  have disj1: "set (AllPatterns d1) \<inter> set (Empty d) = {}"
    using eff(4) disj nE by auto
  have bnd1: "\<forall>a \<in> set (AllPatterns d1) \<union> set (Empty d). length h0 \<le> a \<and> a < length h1"
  proof
    fix a assume "a \<in> set (AllPatterns d1) \<union> set (Empty d)"
    then consider "a \<in> set (AllPatterns d) \<union> set (Empty d)" | "a = length h" "a \<in> set (AllPatterns d1)"
      using eff(4) by auto
    then show "length h0 \<le> a \<and> a < length h1"
    proof cases
      case 1 then show ?thesis using bndA[of a] bndE[of a] eff(3) by auto
    next
      case 2 then show ?thesis using h0h eff(2) by auto
    qed
  qed
  show ?thesis
  proof (cases "barrier cd")
    case False
    then have te: "trackEmpty i cd (h1, d1) = (h1, d1)" by (simp add: trackEmpty_def barrier_def)
    have "pf_inv h0 f (i + 1) (h1, d1)"
      unfolding pf_inv_def prod.case E1
      using eff(1) distE disj1 h0h eff(3) bnd1 eff(8) eff(9) calls tot up1 keepE emp bc False
      by simp
    then show ?thesis using st ap te by simp
  next
    case True
    then have te: "trackEmpty i cd (h1, d1)
        = (h1 @ [emptyPattern i], d1\<lparr>Empty := Empty d @ [length h1]\<rparr>)"
      by (simp add: trackEmpty_def barrier_def emptyPattern_def E1)
    have bAP1: "\<forall>a \<in> set (AllPatterns d1). a < length h1" by (rule eff(2))
    have bE1: "\<forall>a \<in> set (Empty d). a < length h1" using bndE eff(3) by fastforce
    have m1: "map (\<lambda>a. (h1 @ [emptyPattern i]) ! a) (Empty d) = map (\<lambda>a. h1 ! a) (Empty d)"
      using bE1 by (simp add: nth_append)
    have m2: "map (\<lambda>a. f' ((h1 @ [emptyPattern i]) ! a)) (AllPatterns d1)
              = map (\<lambda>a. f' (h1 ! a)) (AllPatterns d1)" for f' :: "CallData \<Rightarrow> 'b"
      using bAP1 by (simp add: nth_append)
    have bc2: "bucket_calls (h1 @ [emptyPattern i]) (d1\<lparr>Empty := Empty d @ [length h1]\<rparr>)
               = bucket_calls h1 d1"
      by (simp add: bucket_calls_def m2)
    have tc2: "total_count (h1 @ [emptyPattern i]) (d1\<lparr>Empty := Empty d @ [length h1]\<rparr>)
               = total_count h1 d1"
      by (simp add: total_count_def m2)
    have fresh: "length h1 \<notin> set (Empty d)" "length h1 \<notin> set (AllPatterns d1)"
      using bE1 bAP1 by auto
    have "pf_inv h0 f (i + 1) (h1 @ [emptyPattern i], d1\<lparr>Empty := Empty d @ [length h1]\<rparr>)"
      unfolding pf_inv_def prod.case bc2 tc2
      using eff(1) distE disj1 h0h eff(3) bnd1 eff(8) eff(9) calls tot up1 keepE emp bc True
        fresh m1
      by (auto simp: less_Suc_eq)
    then show ?thesis using st ap te by simp
  qed
qed

lemma ParseFiles_loop_inv:
  assumes "pf_inv h0 f i st" and "0 \<le> i" and "i \<le> numCalls"
    and "\<forall>j. i \<le> j \<and> j < numCalls \<longrightarrow> snd (f j) = None"
  shows "\<exists>st'. ParseFiles_loop f numCalls i stats st
           = (stats\<lparr>TotalNumCalls := TotalNumCalls stats + (numCalls - i)\<rparr>, st', None)
         \<and> pf_inv h0 f numCalls st'"
  using assms
proof (induction f numCalls i stats st rule: ParseFiles_loop.induct)
  case (1 f numCalls i stats st)
  show ?case
  proof (cases "i < numCalls")
    case False
    with "1.prems" have "i = numCalls" by simp
    then show ?thesis using "1.prems"(1) by (subst ParseFiles_loop.simps) simp
  next
    case True
    obtain cd where cd: "f i = (cd, None)"
      using "1.prems"(4) True by (cases "f i") auto
    let ?st1 = "trackEmpty i cd (addPattern i (SendPatterns cd) (RecvPatterns cd) st)"
    let ?stats1 = "stats\<lparr>TotalNumCalls := TotalNumCalls stats + 1\<rparr>"
    have inv1: "pf_inv h0 f (i + 1) ?st1" using "1.prems"(1,2) cd by (rule pf_inv_step)
    have "\<exists>st'. ParseFiles_loop f numCalls (i + 1) ?stats1 ?st1
           = (?stats1\<lparr>TotalNumCalls := TotalNumCalls ?stats1 + (numCalls - (i + 1))\<rparr>, st', None)
         \<and> pf_inv h0 f numCalls st'"
      using "1.IH"[OF True cd[symmetric] refl inv1] "1.prems"(2,4) True by simp
    then obtain st' where
      r: "ParseFiles_loop f numCalls (i + 1) ?stats1 ?st1
           = (?stats1\<lparr>TotalNumCalls := TotalNumCalls ?stats1 + (numCalls - (i + 1))\<rparr>, st', None)"
      and i': "pf_inv h0 f numCalls st'" by blast
    have "ParseFiles_loop f numCalls i stats st
           = (stats\<lparr>TotalNumCalls := TotalNumCalls stats + (numCalls - i)\<rparr>, st', None)"
      using True cd r by (subst ParseFiles_loop.simps) simp
    with i' show ?thesis by blast
  qed
qed

lemma unique_bucket:
  "distinct xs \<Longrightarrow> count (mset (concat (map f xs))) i = 1
   \<Longrightarrow> \<exists>!a. a \<in> set xs \<and> i \<in> set (f a)"
proof (induction xs)
  case Nil
  then show ?case by simp
next
  case (Cons x xs)
  from Cons.prems(2) have sum: "count (mset (f x)) i + count (mset (concat (map f xs))) i = 1"
    by simp
  show ?case
  proof (cases "i \<in> set (f x)")
    case True
    then have "0 < count (mset (f x)) i" by (simp add: count_greater_zero_iff)
    with sum have "count (mset (concat (map f xs))) i = 0" by linarith
    then have "i \<notin> set (concat (map f xs))"
      by (metis count_eq_zero_iff set_mset_mset)
    then have "\<forall>a \<in> set xs. i \<notin> set (f a)" by auto
    with True show ?thesis by auto
  next
    case False
    then have "count (mset (f x)) i = 0" by (metis count_eq_zero_iff set_mset_mset)
    with sum have "count (mset (concat (map f xs))) i = 1" by linarith
    with Cons.IH Cons.prems(1) have "\<exists>!a. a \<in> set xs \<and> i \<in> set (f a)" by simp
    with False show ?thesis by auto
  qed
qed

lemma ParseFiles_run:
  assumes ok: "\<forall>i \<in> {0..<numCalls}. snd (f i) = None"
  shows "\<exists>st. ParseFiles f new numCalls h0
            = (new\<lparr>TotalNumCalls := TotalNumCalls new + max 0 numCalls\<rparr>, st, None)
           \<and> pf_inv h0 f (max 0 numCalls) st"
proof (cases "0 \<le> numCalls")
  case True
  have "\<forall>j. 0 \<le> j \<and> j < numCalls \<longrightarrow> snd (f j) = None" using ok by auto
  from ParseFiles_loop_inv[OF pf_inv_init _ True this, where ?h0.0 = h0 and stats = new]
  show ?thesis using True by (simp add: ParseFiles_def max_def)
next
  case False
  then have "ParseFiles f new numCalls h0 = (new, (h0, zero_Data), None)"
    by (simp add: ParseFiles_def)
  moreover have "max 0 numCalls = 0" using False by simp
  ultimately show ?thesis using pf_inv_init[of h0 f] by simp
qed

subsection \<open>The topology rules on counts\<close>

lemma wrap64_id: "- 9223372036854775808 \<le> x \<Longrightarrow> x < 9223372036854775808 \<Longrightarrow> wrap64 x = x"
  by (simp add: wrap64_def)

lemma count_entry_rules:
  assumes "count_entry e"
  shows "rule1toN e \<longleftrightarrow> fst e > snd e * 100"
    and "ruleNtoN e \<longleftrightarrow> fst e = snd e"
    and "ruleNto1 e \<longleftrightarrow> fst e * 100 < snd e"
proof -
  obtain p n where e: "e = (p, n)" by (cases e)
  from assms e have r: "0 \<le> p" "0 \<le> n" "p * 100 < 9223372036854775808" "n * 100 < 9223372036854775808"
    by (simp_all add: count_entry_def)
  have w: "wrap64 (n * 100) = n * 100" "wrap64 (p * 100) = p * 100"
    using r by (simp_all add: wrap64_id)
  show "rule1toN e \<longleftrightarrow> fst e > snd e * 100" using e w by (simp add: rule1toN_def)
  show "ruleNtoN e \<longleftrightarrow> fst e = snd e" using e w r by (auto simp: ruleNtoN_def)
  show "ruleNto1 e \<longleftrightarrow> fst e * 100 < snd e" using e w r by (auto simp: ruleNto1_def)
qed

lemma rules_exclusive:
  "length (filter rule1toN es) + length (filter ruleNtoN es) + length (filter ruleNto1 es)
   \<le> length es"
  by (induction es) (auto simp: rule1toN_def ruleNtoN_def ruleNto1_def)

lemma count_list_replicate [simp]: "count_list (replicate k p) a = (if a = p then k else 0)"
  by (induction k) auto

lemma addPattern_grows:
  "\<exists>a1 a2 a3 a4. AllPatterns (snd (addPattern c s r (h, d))) = AllPatterns d @ a1
     \<and> OneToN (snd (addPattern c s r (h, d))) = OneToN d @ a2
     \<and> NToN (snd (addPattern c s r (h, d))) = NToN d @ a3
     \<and> NToOne (snd (addPattern c s r (h, d))) = NToOne d @ a4
     \<and> Empty (snd (addPattern c s r (h, d))) = Empty d"
proof (cases rule: addPattern_cases[of d h s r c])
  case (merge pre x post)
  then show ?thesis by simp
next
  case new
  then show ?thesis by (simp add: detectLoop_views)
qed

lemma views_inv_init: "views_inv (h0, zero_Data)"
  by (simp add: views_inv_def zero_Data_def)

lemma views_inv_step:
  assumes inv: "views_inv st"
  shows "views_inv (addPattern c s r st)"
proof -
  obtain h d where st: "st = (h, d)" by (cases st)
  from inv st have dist: "distinct (AllPatterns d)"
    and bnd: "\<forall>a \<in> set (AllPatterns d). a < length h"
    and sub: "set (OneToN d) \<union> set (NToN d) \<union> set (NToOne d) \<subseteq> set (AllPatterns d)"
    and cnt: "\<forall>a \<in> set (AllPatterns d).
           count_list (OneToN d) a + count_list (NToN d) a + count_list (NToOne d) a
           \<le> len (Send (h ! a))"
    and emp: "Empty d = []"
    by (simp_all add: views_inv_def)
  show ?thesis
  proof (cases rule: addPattern_cases[of d h s r c])
    case (merge pre x post)
    have send: "Send (h[x := bump c (h ! x)] ! a) = Send (h ! a)" if "a < length h" for a
      using that by (cases "a = x") (simp_all add: bump_def)
    have "views_inv (h[x := bump c (h ! x)], d)"
      unfolding views_inv_def prod.case
      using dist bnd sub cnt emp send by auto
    then show ?thesis using st merge(4) by simp
  next
    case new
    let ?es = "entries s"
    let ?n = "length h"
    define d' where "d' = detectLoop ?n ?es (d\<lparr>AllPatterns := AllPatterns d @ [?n]\<rparr>)"
    define nb where "nb = \<lparr>Send = s, Recv = r, Count = 1, Calls = [c]\<rparr>"
    have res: "addPattern c s r st = (h @ [nb], d')" using st new(2) by (simp add: d'_def nb_def)
    have AP: "AllPatterns d' = AllPatterns d @ [?n]" by (simp add: d'_def)
    have V: "OneToN d' = OneToN d @ replicate (length (filter rule1toN ?es)) ?n"
      "NToN d' = NToN d @ replicate (length (filter ruleNtoN ?es)) ?n"
      "NToOne d' = NToOne d @ replicate (length (filter ruleNto1 ?es)) ?n"
      using detectLoop_views[of ?n ?es "d\<lparr>AllPatterns := AllPatterns d @ [?n]\<rparr>"]
      by (simp_all add: d'_def)
    have fresh: "?n \<notin> set (AllPatterns d)" using bnd by auto
    then have fresh': "?n \<notin> set (OneToN d)" "?n \<notin> set (NToN d)" "?n \<notin> set (NToOne d)"
      using sub by auto
    have zero: "count_list (OneToN d) ?n = 0" "count_list (NToN d) ?n = 0"
      "count_list (NToOne d) ?n = 0"
      using fresh' by (simp_all add: count_list_0_iff)
    have excl: "length (filter rule1toN ?es) + length (filter ruleNtoN ?es)
                 + length (filter ruleNto1 ?es) \<le> length ?es" by (rule rules_exclusive)
    have "views_inv (h @ [nb], d')"
      unfolding views_inv_def prod.case AP V
    proof (intro conjI ballI)
      show "distinct (AllPatterns d @ [?n])" using dist fresh by simp
    next
      fix a assume "a \<in> set (AllPatterns d @ [?n])"
      then show "a < length (h @ [nb])" using bnd by (auto simp: less_Suc_eq)
    next
      show "set (OneToN d @ replicate (length (filter rule1toN ?es)) ?n)
            \<union> set (NToN d @ replicate (length (filter ruleNtoN ?es)) ?n)
            \<union> set (NToOne d @ replicate (length (filter ruleNto1 ?es)) ?n)
            \<subseteq> set (AllPatterns d @ [?n])"
        using sub by (auto simp: set_replicate_conv_if split: if_splits)
    next
      fix a assume a: "a \<in> set (AllPatterns d @ [?n])"
      show "count_list (OneToN d @ replicate (length (filter rule1toN ?es)) ?n) a
            + count_list (NToN d @ replicate (length (filter ruleNtoN ?es)) ?n) a
            + count_list (NToOne d @ replicate (length (filter ruleNto1 ?es)) ?n) a
            \<le> len (Send ((h @ [nb]) ! a))"
      proof (cases "a = ?n")
        case True
        then show ?thesis using zero excl by (simp add: nb_def len_def)
      next
        case False
        with a have a': "a \<in> set (AllPatterns d)" by simp
        then have "a < length h" using bnd by blast
        then show ?thesis using cnt a' False by (simp add: nth_append)
      qed
    next
      show "Empty d' = []" using emp by (simp add: d'_def)
    qed
    then show ?thesis using res by simp
  qed
qed

lemma views_inv_addPatterns: "views_inv st \<Longrightarrow> views_inv (addPatterns cs st)"
proof (induction cs arbitrary: st)
  case Nil
  then show ?case by simp
next
  case (Cons e cs)
  obtain c s r where e: "e = (c, s, r)" by (cases e)
  show ?case using Cons.IH[OF views_inv_step[OF Cons.prems, of c s r]] e by simp
qed

subsection \<open>What patternIsInList compares\<close>

lemma entryLoop_iff: "entryLoop numPeers numRanks es \<longleftrightarrow> numRanks \<in> snd ` set es"
  by (induction es) (auto simp: image_iff)

lemma patternIsInList_ignores_numPeers:
  "patternIsInList h numPeers numRanks ctx ps = patternIsInList h numPeers' numRanks ctx ps"
  by (induction ps) (auto simp: entryLoop_iff)

subsection \<open>The order of a range over a map\<close>

text \<open>
  \<open>rangeOver\<close> visits every entry once, and every order of the entries is the visit of
  some parameter. The loops of \<open>addPattern\<close> and \<open>Same\<close> over the entries of a map give the
  same result whatever the order.
\<close>

lemma rangeOver_mset: "mset (rangeOver order es) = mset es"
proof (cases "sort order = [0..<length es]")
  case True
  then have "mset order = mset [0..<length es]" by (metis mset_sort)
  then have "mset (map (\<lambda>i. es ! i) order) = mset (map (\<lambda>i. es ! i) [0..<length es])"
    by (simp only: mset_map)
  then show ?thesis using True by (simp add: rangeOver_def map_nth)
next
  case False
  then show ?thesis by (simp add: rangeOver_def)
qed

lemma rangeOver_Nil [simp]: "rangeOver [] es = es"
  by (cases es) (simp_all add: rangeOver_def)

lemma rangeOver_short: "length es \<le> 1 \<Longrightarrow> rangeOver order es = es"
proof -
  assume l: "length es \<le> 1"
  have m: "mset (rangeOver order es) = mset es" by (rule rangeOver_mset)
  show ?thesis
  proof (cases es)
    case Nil
    with m show ?thesis by simp
  next
    case (Cons e es')
    with l have e: "es = [e]" by simp
    from m have "mset (rangeOver order es) = {#e#}" unfolding e by simp
    then have "rangeOver order es = [e]" by (simp only: mset_single_iff)
    then show ?thesis using e by simp
  qed
qed

lemma detectLoop_order:
  assumes "mset es' = mset es"
  shows "detectLoop p es' d = detectLoop p es d"
proof -
  have l: "length (filter P es') = length (filter P es)" for P :: "int \<times> int \<Rightarrow> bool"
  proof -
    have "mset (filter P es') = mset (filter P es)" using assms by (simp only: mset_filter)
    then show ?thesis by (rule mset_eq_length)
  qed
  have r: "detectLoop p xs d
      = d\<lparr>OneToN := OneToN d @ replicate (length (filter rule1toN xs)) p,
           NToN := NToN d @ replicate (length (filter ruleNtoN xs)) p,
           NToOne := NToOne d @ replicate (length (filter ruleNto1 xs)) p\<rparr>" for xs
    using detectLoop_views[of p xs d] by (intro Data.equality) simp_all
  show ?thesis unfolding r l ..
qed

lemma entryLoop_order:
  assumes "mset es' = mset es"
  shows "entryLoop numPeers numRanks es' = entryLoop numPeers numRanks es"
proof -
  have "set es' = set es" using assms by (rule mset_eq_setD)
  then show ?thesis by (simp only: entryLoop_iff)
qed

lemma checkEntries_iff:
  "checkEntries h ctx ps es
   \<longleftrightarrow> (\<forall>e \<in> set es. patternIsInList h (fst e) (snd e) ctx ps \<noteq> 0)"
proof (induction es)
  case Nil
  show ?case by simp
next
  case (Cons e es)
  obtain numPeers numRanks where e: "e = (numPeers, numRanks)" by (cases e)
  show ?case unfolding e using Cons.IH by simp
qed

lemma checkEntries_order:
  assumes "mset es' = mset es"
  shows "checkEntries h ctx ps es' = checkEntries h ctx ps es"
proof -
  have "set es' = set es" using assms by (rule mset_eq_setD)
  then show ?thesis by (simp only: checkEntries_iff)
qed

lemma shift_upt:
  assumes "k \<le> n"
  shows "map (\<lambda>j. if j < k then j else Suc j) [0..<n] = [0..<k] @ [Suc k..<Suc n]"
proof -
  from assms obtain m where n: "n = k + m" by (auto simp: le_iff_add)
  have "[0..<n] = [0..<k] @ [k..<n]" unfolding n by (rule upt_add_eq_append) simp
  then have "map (\<lambda>j. if j < k then j else Suc j) [0..<n]
      = map (\<lambda>j. if j < k then j else Suc j) [0..<k] @ map (\<lambda>j. if j < k then j else Suc j) [k..<n]"
    by (simp only: map_append)
  also have "map (\<lambda>j. if j < k then j else Suc j) [0..<k] = [0..<k]"
    by (rule map_idI) simp
  also have "map (\<lambda>j. if j < k then j else Suc j) [k..<n] = map Suc [k..<n]"
    by (rule map_cong[OF refl]) simp
  also have "map Suc [k..<n] = [Suc k..<Suc n]" by (rule map_Suc_upt)
  finally show ?thesis .
qed

lemma visiting_exists:
  assumes "mset es' = mset es"
  shows "\<exists>order. sort order = [0..<length es] \<and> map (\<lambda>i. es ! i) order = es'"
  using assms
proof (induction es' arbitrary: es)
  case Nil
  then show ?case by (intro exI[of _ "[]"]) simp
next
  case (Cons x xs)
  then have "x \<in> set es" by (metis list.set_intros(1) mset_eq_setD)
  then obtain as bs where es: "es = as @ x # bs" by (meson split_list)
  with Cons.prems have "mset xs = mset (as @ bs)" by simp
  from Cons.IH[OF this] obtain order where
    o: "sort order = [0..<length (as @ bs)]" "map (\<lambda>i. (as @ bs) ! i) order = xs" by blast
  let ?k = "length as" and ?n = "length (as @ bs)"
  let ?f = "\<lambda>j. if j < ?k then j else Suc j"
  have mo: "mset order = mset [0..<?n]" using o(1) by (metis mset_sort)
  then have so: "set order = {0..<?n}" by (metis mset_eq_setD set_upt)
  have "mset (?k # map ?f order) = add_mset ?k (mset (map ?f [0..<?n]))"
    using mo by (simp only: mset.simps mset_map)
  also have "map ?f [0..<?n] = [0..<?k] @ [Suc ?k..<Suc ?n]" by (rule shift_upt) simp
  also have "add_mset ?k (mset ([0..<?k] @ [Suc ?k..<Suc ?n])) = mset ([0..<?k] @ ?k # [Suc ?k..<Suc ?n])"
    by simp
  also have "[0..<?k] @ ?k # [Suc ?k..<Suc ?n] = [0..<Suc ?n]"
  proof -
    have "[0..<Suc ?n] = [0..<?k + Suc (length bs)]" by simp
    also have "\<dots> = [0..<?k] @ [?k..<?k + Suc (length bs)]" by (rule upt_add_eq_append) simp
    also have "[?k..<?k + Suc (length bs)] = ?k # [Suc ?k..<Suc ?n]"
      by (simp add: upt_conv_Cons del: upt_Suc)
    finally show ?thesis by simp
  qed
  finally have m: "mset [0..<Suc ?n] = mset (?k # map ?f order)" by simp
  have s: "sort (?k # map ?f order) = [0..<length es]"
  proof -
    have "sort (?k # map ?f order) = [0..<Suc ?n]"
      using m by (rule properties_for_sort) (rule sorted_upt)
    then show ?thesis by (simp add: es)
  qed
  have nth: "es ! ?f j = (as @ bs) ! j" for j
    by (simp add: es nth_append Suc_diff_le)
  have "map (\<lambda>i. es ! i) (?k # map ?f order) = es ! ?k # map (\<lambda>j. es ! ?f j) order"
    by (simp add: o_def)
  also have "es ! ?k = x" by (simp add: es)
  also have "map (\<lambda>j. es ! ?f j) order = xs" by (simp only: nth o(2))
  finally have "map (\<lambda>i. es ! i) (?k # map ?f order) = x # xs" .
  with s have "sort (?k # map ?f order) = [0..<length es]
      \<and> map (\<lambda>i. es ! i) (?k # map ?f order) = x # xs" by (rule conjI)
  then show ?case by (rule exI)
qed

lemma rangeOver_any:
  assumes "mset es' = mset es"
  shows "\<exists>order. rangeOver order es = es'"
proof -
  from visiting_exists[OF assms] obtain order where
    "sort order = [0..<length es]" "map (\<lambda>i. es ! i) order = es'" by blast
  then have "rangeOver order es = es'" by (simp add: rangeOver_def)
  then show ?thesis ..
qed

subsection \<open>The first loop of AnalyzeSubCommsResults\<close>

lemma similarLoop_reference:
  "similarLoop h ps (int (length (AllPatterns p))) (int (length (NToN p)))
      (int (length (OneToN p))) (int (length (NToOne p))) p
   = (\<forall>q \<in> set ps. view_lengths q = view_lengths p \<and> Same h p q)"
proof (induction ps)
  case Nil
  show ?case by simp
next
  case (Cons q qs)
  have ne: "int (length (AllPatterns p)) \<noteq> - 1" by simp
  have lens: "(int (length (AllPatterns p)) \<noteq> int (length (AllPatterns q))
              \<or> int (length (NToOne p)) \<noteq> int (length (NToOne q))
              \<or> int (length (NToN p)) \<noteq> int (length (NToN q))
              \<or> int (length (OneToN p)) \<noteq> int (length (OneToN q)))
             \<longleftrightarrow> view_lengths q \<noteq> view_lengths p"
    by (auto simp: view_lengths_def)
  show ?case
    by (simp only: similarLoop.simps ne if_False lens Cons.IH) auto
qed

lemma similarLoop_start:
  "similarLoop h (p # ps) (- 1) (- 1) (- 1) (- 1) zero_Data
   = (\<forall>q \<in> set ps. view_lengths q = view_lengths p \<and> Same h p q)"
  by (simp add: similarLoop_reference)

subsection \<open>Writers on a file that accepts every write\<close>

lemma writer_okI:
  assumes "\<And>fd. quota fd = None \<Longrightarrow> f fd = (None, fd\<lparr>written := written fd @ s\<rparr>)"
  shows "writer_ok f" and "out f = s"
proof -
  show s: "out f = s" using assms[of emptyFile] by (simp add: out_def emptyFile_def)
  show "writer_ok f" using assms by (simp add: writer_ok_def s)
qed

lemma writer_okD:
  "writer_ok f \<Longrightarrow> quota fd = None \<Longrightarrow> f fd = (None, fd\<lparr>written := written fd @ out f\<rparr>)"
  by (simp add: writer_ok_def)

lemma WriteString_ok: "writer_ok (WriteString s)" and WriteString_out: "out (WriteString s) = s"
  by (rule writer_okI[where s = s], simp add: WriteString_def)+

lemma thenDo_ok:
  assumes "writer_ok f" "writer_ok g"
  shows "writer_ok (thenDo f g)" and "out (thenDo f g) = out f @ out g"
  by (rule writer_okI[where s = "out f @ out g"],
      simp add: thenDo_def writer_okD[OF assms(1)] writer_okD[OF assms(2)])+

lemma forEach_ok:
  assumes "\<And>x. x \<in> set xs \<Longrightarrow> writer_ok (f x)"
  shows "writer_ok (forEach f xs)" and "out (forEach f xs) = concat (map (\<lambda>x. out (f x)) xs)"
proof -
  have *: "quota fd = None \<Longrightarrow>
      forEach f xs fd = (None, fd\<lparr>written := written fd @ concat (map (\<lambda>x. out (f x)) xs)\<rparr>)" for fd
    using assms
  proof (induction xs arbitrary: fd)
    case Nil
    then show ?case by simp
  next
    case (Cons x xs)
    have "f x fd = (None, fd\<lparr>written := written fd @ out (f x)\<rparr>)"
      using Cons.prems by (simp add: writer_okD)
    moreover have "forEach f xs (fd\<lparr>written := written fd @ out (f x)\<rparr>)
        = (None, fd\<lparr>written := written fd @ out (f x) @ concat (map (\<lambda>x. out (f x)) xs)\<rparr>)"
      using Cons.IH[of "fd\<lparr>written := written fd @ out (f x)\<rparr>"] Cons.prems by simp
    ultimately show ?case by simp
  qed
  show "writer_ok (forEach f xs)" and "out (forEach f xs) = concat (map (\<lambda>x. out (f x)) xs)"
    by (rule writer_okI[where s = "concat (map (\<lambda>x. out (f x)) xs)"], rule *, assumption)+
qed

lemma forEach_pair_ok:
  assumes "\<And>i p. writer_ok (f i p)"
  shows "writer_ok (forEach (\<lambda>(i, p). f i p) xs)"
    and "out (forEach (\<lambda>(i, p). f i p) xs) = concat (map (\<lambda>(i, p). out (f i p)) xs)"
proof -
  have ok: "writer_ok ((\<lambda>(i, p). f i p) x)" for x by (cases x) (simp add: assms)
  show "writer_ok (forEach (\<lambda>(i, p). f i p) xs)" by (rule forEach_ok(1)[OF ok])
  have "out (forEach (\<lambda>(i, p). f i p) xs) = concat (map (\<lambda>x. out ((\<lambda>(i, p). f i p) x)) xs)"
    by (rule forEach_ok(2)[OF ok])
  also have "(\<lambda>x. out ((\<lambda>(i, p). f i p) x)) = (\<lambda>(i, p). out (f i p))"
    by (rule ext) (simp add: split_beta)
  finally show "out (forEach (\<lambda>(i, p). f i p) xs) = concat (map (\<lambda>(i, p). out (f i p)) xs)" .
qed

lemma writeDataToFile_ok: "writer_ok (writeDataToFile orders cd)"
  unfolding writeDataToFile_def
  by (intro thenDo_ok(1) forEach_ok(1) WriteString_ok)

lemma WriteToFile_ok: "writer_ok (WriteToFile cia orders num t cd)"
  unfolding WriteToFile_def
  by (intro thenDo_ok(1) WriteString_ok writeDataToFile_ok)

lemma WriteToFile_out:
  "out (WriteToFile cia orders num t cd)
   = ''## Pattern #'' @ itoa num @ '' ('' @ itoa (Count cd) @ ''/'' @ itoa t
     @ '' alltoallv calls)\<newline>\<newline>'' @ ''Alltoallv calls: '' @ cia (Calls cd)
     @ ''\<newline>'' @ out (writeDataToFile orders cd) @ ''\<newline>''"
  unfolding WriteToFile_def
  by (simp add: thenDo_ok(2) thenDo_ok(1) WriteString_ok WriteString_out writeDataToFile_ok)

lemma writeAllPatterns_ok:
  "writer_ok (writeAllPatterns cia orders h t num cps)"
  and writeAllPatterns_out:
  "out (writeAllPatterns cia orders h t num cps)
   = concat (map (\<lambda>(k, cp). out (WriteToFile cia (orders (num + int k)) (num + int k) t (h ! cp)))
                 (zip [0..<length cps] cps))"
proof -
  have *: "quota fd = None \<Longrightarrow> writeAllPatterns cia orders h t num cps fd
      = (None, fd\<lparr>written := written fd
           @ concat (map (\<lambda>(k, cp). out (WriteToFile cia (orders (num + int k)) (num + int k) t (h ! cp)))
                 (zip [0..<length cps] cps))\<rparr>)" for fd
  proof (induction cps arbitrary: fd num)
    case Nil
    then show ?case by simp
  next
    case (Cons cp cps)
    let ?fd1 = "fd\<lparr>written := written fd @ out (WriteToFile cia (orders num) num t (h ! cp))\<rparr>"
    have 1: "WriteToFile cia (orders num) num t (h ! cp) fd = (None, ?fd1)"
      using Cons.prems by (rule writer_okD[OF WriteToFile_ok])
    have q: "quota ?fd1 = None" using Cons.prems by simp
    have z: "zip [0..<length (cp # cps)] (cp # cps)
         = (0, cp) # map (\<lambda>(k, c). (Suc k, c)) (zip [0..<length cps] cps)"
      by (simp add: upt_conv_Cons map_Suc_upt[symmetric] zip_map1 del: upt_Suc)
    show ?case
      by (simp only: z) (simp add: 1 Cons.IH[OF q] o_def split_def add.assoc)
  qed
  show "writer_ok (writeAllPatterns cia orders h t num cps)"
    and "out (writeAllPatterns cia orders h t num cps)
   = concat (map (\<lambda>(k, cp). out (WriteToFile cia (orders (num + int k)) (num + int k) t (h ! cp)))
                 (zip [0..<length cps] cps))"
    by (rule writer_okI[OF *], assumption)+
qed

subsection \<open>Lines of the patterns file\<close>

lemma nl_notin_digits: "CHR 0x0A \<notin> set (digits n)"
proof (induction n rule: digits.induct)
  case (1 n)
  have d: "CHR 0x0A \<noteq> ''0123456789'' ! k" if "k < 10" for k
  proof -
    have "''0123456789'' ! k \<in> set ''0123456789''" using that by (intro nth_mem) simp
    then show ?thesis by auto
  qed
  show ?case
  proof (cases "n < 10")
    case True
    then show ?thesis by (subst digits.simps) (simp add: d)
  next
    case False
    then show ?thesis using "1.IH" by (subst digits.simps) (simp add: d)
  qed
qed

lemma nl_notin_itoa: "CHR 0x0A \<notin> set (itoa i)"
  by (simp add: itoa_def nl_notin_digits)

lemma ReadString_line:
  "CHR 0x0A \<notin> set line \<Longrightarrow>
   ReadString (line @ CHR 0x0A # rest) = (line @ [CHR 0x0A], None, rest)"
proof -
  assume a: "CHR 0x0A \<notin> set line"
  then have ne: "\<And>c. c \<in> set line \<Longrightarrow> c \<noteq> CHR 0x0A" by auto
  have t: "takeWhile (\<lambda>c. c \<noteq> CHR 0x0A) (line @ CHR 0x0A # rest) = line"
    using takeWhile_append2[of line "\<lambda>c. c \<noteq> CHR 0x0A" "CHR 0x0A # rest"] ne by simp
  have d: "dropWhile (\<lambda>c. c \<noteq> CHR 0x0A) (line @ CHR 0x0A # rest) = CHR 0x0A # rest"
    using dropWhile_append2[of line "\<lambda>c. c \<noteq> CHR 0x0A" "CHR 0x0A # rest"] ne by simp
  show ?thesis by (simp add: ReadString_def t d)
qed

lemma SaveStats_patterns_out:
  "written (snd (SaveStats_patterns cia orders h (d\<lparr>AllPatterns := cp # cps\<rparr>) t emptyFile))
   = ''# Patterns'' @ CHR 0x0A #
     (''## Pattern #'' @ itoa 0 @ '' ('' @ itoa (Count (h ! cp)) @ ''/'' @ itoa t
         @ '' alltoallv calls)'') @ CHR 0x0A #
     [] @ CHR 0x0A #
     (''Alltoallv calls: '' @ cia (Calls (h ! cp)) @ ''\<newline>''
        @ out (writeDataToFile (orders 0) (h ! cp)) @ ''\<newline>''
        @ out (writeAllPatterns cia orders h t 1 cps))"
proof -
  have "writeAllPatterns cia orders h t 0 (cp # cps)
      = thenDo (WriteToFile cia (orders 0) 0 t (h ! cp)) (writeAllPatterns cia orders h t 1 cps)"
    by (rule ext) (simp add: thenDo_def split: prod.splits option.splits)
  then have "out (SaveStats_patterns cia orders h (d\<lparr>AllPatterns := cp # cps\<rparr>) t)
      = ''# Patterns\<newline>'' @ out (WriteToFile cia (orders 0) 0 t (h ! cp))
        @ out (writeAllPatterns cia orders h t 1 cps)"
    by (simp add: SaveStats_patterns_def thenDo_ok WriteString_ok WriteString_out
        WriteToFile_ok writeAllPatterns_ok)
  then show ?thesis by (simp add: out_def WriteToFile_out[unfolded out_def])
qed

subsection \<open>The text of the report\<close>

lemma if_ok:
  assumes "c \<Longrightarrow> writer_ok f"
  shows "writer_ok (\<lambda>fd. if c then f fd else (None, fd))"
    and "out (\<lambda>fd. if c then f fd else (None, fd)) = (if c then out f else [])"
proof -
  have *: "(if c then f fd else (None, fd))
      = (None, fd\<lparr>written := written fd @ (if c then out f else [])\<rparr>)"
    if "quota fd = None" for fd
    using that writer_okD[OF assms] by (cases c) simp_all
  show "writer_ok (\<lambda>fd. if c then f fd else (None, fd))"
    using * by (rule writer_okI(1))
  show "out (\<lambda>fd. if c then f fd else (None, fd)) = (if c then out f else [])"
    using * by (rule writer_okI(2))
qed

lemma patternCountLines_ok: "writer_ok (patternCountLines h t num ps)"
proof -
  have "\<exists>s. \<forall>fd. quota fd = None \<longrightarrow>
           patternCountLines h t num ps fd = (None, fd\<lparr>written := written fd @ s\<rparr>)"
  proof (induction ps arbitrary: num)
    case Nil
    show ?case by (intro exI[of _ "[]"]) simp
  next
    case (Cons p ps)
    from Cons.IH[of "num + 1"] obtain s where
      s: "\<forall>fd. quota fd = None \<longrightarrow>
           patternCountLines h t (num + 1) ps fd = (None, fd\<lparr>written := written fd @ s\<rparr>)" by blast
    let ?l = "CHR 0x09 # ''pattern #'' @ itoa num @ '': '' @ itoa (Count (h ! p)) @ ''/''
                        @ itoa t @ '' alltoallv calls\<newline>''"
    show ?case
    proof (intro exI[of _ "?l @ s"] allI impI)
      fix fd :: osFile assume q: "quota fd = None"
      have 1: "WriteString ?l fd = (None, fd\<lparr>written := written fd @ ?l\<rparr>)"
        using q by (simp add: WriteString_def)
      have 2: "patternCountLines h t (num + 1) ps (fd\<lparr>written := written fd @ ?l\<rparr>)
           = (None, fd\<lparr>written := written fd @ ?l @ s\<rparr>)"
        using s q by simp
      show "patternCountLines h t num (p # ps) fd = (None, fd\<lparr>written := written fd @ ?l @ s\<rparr>)"
        by (simp only: patternCountLines.simps 1 2 prod.case option.case)
    qed
  qed
  then obtain s where "\<And>fd. quota fd = None \<Longrightarrow>
           patternCountLines h t num ps fd = (None, fd\<lparr>written := written fd @ s\<rparr>)" by blast
  then show ?thesis by (rule writer_okI(1))
qed

lemma WriteSubcommPatterns_ok:
  "ranks \<noteq> [] \<Longrightarrow> writer_ok (WriteSubcommPatterns title view orders h ranks stats patterns)"
proof -
  assume "ranks \<noteq> []"
  then obtain r0 rs where r: "ranks = r0 # rs" by (cases ranks) auto
  have mid: "writer_ok (\<lambda>fd. case ranks of
                     [] \<Rightarrow> (Some PanicIndexOutOfRange, fd)
                   | r0 # _ \<Rightarrow> forEach (\<lambda>(i, p). writeDataToFile (orders i) (h ! p))
                       (enumerate 0 (view (lookupData patterns r0))) fd)"
    unfolding r list.case by (rule forEach_pair_ok(1)) (rule writeDataToFile_ok)
  show ?thesis
    unfolding WriteSubcommPatterns_def
    by (intro thenDo_ok(1) WriteString_ok mid forEach_ok(1) patternCountLines_ok)
qed

lemma binLine_ok: "writer_ok (binLine b)"
  by (simp add: binLine_def WriteString_ok)

lemma emptyTallyLine_ok: "writer_ok (emptyTallyLine stats allPatterns rank)"
proof -
  have "emptyTallyLine stats allPatterns rank
      = (\<lambda>fd. if length (Empty (lookupData allPatterns rank)) > 0
           then WriteString (''-> Sub-communicator led by rank '' @ itoa rank @ '': ''
                        @ itoa (int (length (Empty (lookupData allPatterns rank)))) @ ''/''
                        @ itoa (TotalNumCalls (lookupStats stats rank))
                        @ '' alltoallv calls\<newline>'') fd
           else (None, fd))"
    by (rule ext) (simp add: emptyTallyLine_def)
  then show ?thesis by (simp only:) (intro if_ok(1) WriteString_ok)
qed

lemma writeSections_ok:
  assumes "ranks \<noteq> []"
  shows "writer_ok (writeSections orders h ranks stats allPatterns)"
    and "out (writeSections orders h ranks stats allPatterns)
      = section_text (WriteSubcommNtoNPatterns (orders 0)) NToN h ranks stats allPatterns
      @ section_text (WriteSubcomm1toNPatterns (orders 1)) OneToN h ranks stats allPatterns
      @ section_text (WriteSubcommNto1Patterns (orders 2)) NToOne h ranks stats allPatterns
      @ ''\<newline>## All 0 counts pattern; no data exchanged\<newline>\<newline>''
      @ concat (map (\<lambda>rank. out (emptyTallyLine stats allPatterns rank)) ranks)
      @ ''\<newline># Counts analysis\<newline>\<newline>''
      @ concat (map (\<lambda>rank. ''-> Sub-communicator led by rank '' @ itoa rank @ '':\<newline>''
                       @ concat (map (\<lambda>b. out (binLine b)) (Bins (lookupStats stats rank)))) ranks)"
proof -
  from assms obtain r0 rs where r: "ranks = r0 # rs" by (cases ranks) auto
  let ?s1 = "\<lambda>fd. if length (NToN (lookupData allPatterns r0)) > 0
                       then WriteSubcommNtoNPatterns (orders 0) h ranks stats allPatterns fd else (None, fd)"
  let ?s2 = "\<lambda>fd. if length (OneToN (lookupData allPatterns r0)) > 0
                       then WriteSubcomm1toNPatterns (orders 1) h ranks stats allPatterns fd else (None, fd)"
  let ?s3 = "\<lambda>fd. if length (NToOne (lookupData allPatterns r0)) > 0
                       then WriteSubcommNto1Patterns (orders 2) h ranks stats allPatterns fd else (None, fd)"
  let ?t = "forEach (emptyTallyLine stats allPatterns) ranks"
  let ?b = "forEach (\<lambda>rank. thenDo
                            (WriteString (''-> Sub-communicator led by rank '' @ itoa rank
                                          @ '':\<newline>''))
                            (forEach binLine (Bins (lookupStats stats rank))))
                         ranks"
  have ok1: "writer_ok ?s1" "writer_ok ?s2" "writer_ok ?s3"
    using assms
    by (intro if_ok(1), simp add: WriteSubcommNtoNPatterns_def WriteSubcomm1toNPatterns_def
        WriteSubcommNto1Patterns_def WriteSubcommPatterns_ok)+
  have o1: "out ?s1 = section_text (WriteSubcommNtoNPatterns (orders 0)) NToN h ranks stats allPatterns"
    "out ?s2 = section_text (WriteSubcomm1toNPatterns (orders 1)) OneToN h ranks stats allPatterns"
    "out ?s3 = section_text (WriteSubcommNto1Patterns (orders 2)) NToOne h ranks stats allPatterns"
    using assms
    by (subst if_ok(2), simp add: WriteSubcommNtoNPatterns_def WriteSubcomm1toNPatterns_def
        WriteSubcommNto1Patterns_def WriteSubcommPatterns_ok, simp add: section_text_def r)+
  have okt: "writer_ok ?t" by (intro forEach_ok(1) emptyTallyLine_ok)
  have ot: "out ?t = concat (map (\<lambda>rank. out (emptyTallyLine stats allPatterns rank)) ranks)"
    by (intro forEach_ok(2) emptyTallyLine_ok)
  have okl: "writer_ok (thenDo (WriteString (''-> Sub-communicator led by rank '' @ itoa rank
                                          @ '':\<newline>''))
                            (forEach binLine (Bins (lookupStats stats rank))))" for rank
    by (intro thenDo_ok(1) WriteString_ok forEach_ok(1) binLine_ok)
  have ol: "out (thenDo (WriteString (''-> Sub-communicator led by rank '' @ itoa rank
                                          @ '':\<newline>''))
                            (forEach binLine (Bins (lookupStats stats rank))))
          = ''-> Sub-communicator led by rank '' @ itoa rank @ '':\<newline>''
                       @ concat (map (\<lambda>b. out (binLine b)) (Bins (lookupStats stats rank)))" for rank
    by (simp add: thenDo_ok(2) WriteString_ok WriteString_out forEach_ok binLine_ok)
  have okb: "writer_ok ?b" by (intro forEach_ok(1) okl)
  have ob: "out ?b = concat (map (\<lambda>rank. ''-> Sub-communicator led by rank '' @ itoa rank @ '':\<newline>''
                       @ concat (map (\<lambda>b. out (binLine b)) (Bins (lookupStats stats rank)))) ranks)"
    by (subst forEach_ok(2)[OF okl]) (simp only: ol)
  have eq: "writeSections orders h ranks stats allPatterns
     = thenDo ?s1 (thenDo ?s2 (thenDo ?s3
        (thenDo (WriteString ''\<newline>## All 0 counts pattern; no data exchanged\<newline>\<newline>'')
        (thenDo ?t (thenDo (WriteString ''\<newline># Counts analysis\<newline>\<newline>'') ?b)))))"
    unfolding r by (rule ext) (simp add: writeSections_def)
  show "writer_ok (writeSections orders h ranks stats allPatterns)"
    unfolding eq by (intro thenDo_ok(1) ok1 okt okb WriteString_ok)
  show "out (writeSections orders h ranks stats allPatterns)
      = section_text (WriteSubcommNtoNPatterns (orders 0)) NToN h ranks stats allPatterns
      @ section_text (WriteSubcomm1toNPatterns (orders 1)) OneToN h ranks stats allPatterns
      @ section_text (WriteSubcommNto1Patterns (orders 2)) NToOne h ranks stats allPatterns
      @ ''\<newline>## All 0 counts pattern; no data exchanged\<newline>\<newline>''
      @ concat (map (\<lambda>rank. out (emptyTallyLine stats allPatterns rank)) ranks)
      @ ''\<newline># Counts analysis\<newline>\<newline>''
      @ concat (map (\<lambda>rank. ''-> Sub-communicator led by rank '' @ itoa rank @ '':\<newline>''
                       @ concat (map (\<lambda>b. out (binLine b)) (Bins (lookupStats stats rank)))) ranks)"
    unfolding eq
    by (simp only: thenDo_ok(2) thenDo_ok(1) ok1 okt okb WriteString_ok WriteString_out o1 ot ob
        append_assoc)
qed

lemma map_of_perm:
  assumes "distinct (map fst xs)" and "mset ys = mset xs"
  shows "map_of ys = map_of xs"
proof -
  have "mset (map fst ys) = mset (map fst xs)" using assms(2) by simp
  then have "distinct (map fst ys)" using assms(1) by (metis mset_eq_imp_distinct_iff)
  moreover have "set ys = set xs" using assms(2) by (rule mset_eq_setD)
  ultimately show ?thesis using assms(1) by (simp add: map_of_inject_set)
qed

lemma sort_keys_perm:
  assumes "mset ys = mset xs"
  shows "sort (map fst ys) = sort (map fst xs)"
proof (rule properties_for_sort)
  show "mset (sort (map fst xs)) = mset (map fst ys)" using assms by simp
  show "sorted (sort (map fst xs))" by simp
qed

lemma writeSections_cong:
  assumes e1: "\<And>r. lookupStats stats' r = lookupStats stats r"
    and e2: "\<And>r. lookupData allPatterns' r = lookupData allPatterns r"
  shows "writeSections orders h ranks stats' allPatterns' = writeSections orders h ranks stats allPatterns"
  unfolding writeSections_def WriteSubcommNtoNPatterns_def WriteSubcomm1toNPatterns_def
    WriteSubcommNto1Patterns_def WriteSubcommPatterns_def emptyTallyLine_def[abs_def] e1 e2
  by (rule refl)

lemma WriteSubcommPatterns_out:
  assumes r: "ranks = r0 # rs"
  shows "out (WriteSubcommPatterns title view orders h ranks stats patterns)
     = title @ ''\<newline>### Pattern(s) description\<newline>\<newline>''
       @ concat (map (\<lambda>(i, p). out (writeDataToFile (orders i) (h ! p)))
                     (enumerate 0 (view (lookupData patterns r0))))
       @ ''\<newline>\<newline>### Sub-communicator(s) information\<newline>\<newline>''
       @ concat (map (\<lambda>r. ''-> Subcommunicator led by rank '' @ itoa r @ '':\<newline>''
                      @ out (patternCountLines h (TotalNumCalls (lookupStats stats r)) 0
                               (view (lookupData patterns r)))) ranks)"
proof -
  let ?mid = "forEach (\<lambda>(i, p). writeDataToFile (orders i) (h ! p))
                       (enumerate 0 (view (lookupData patterns r0)))"
  let ?line = "\<lambda>r. thenDo
                        (WriteString (''-> Subcommunicator led by rank '' @ itoa r @ '':\<newline>''))
                        (patternCountLines h (TotalNumCalls (lookupStats stats r)) 0
                           (view (lookupData patterns r)))"
  let ?last = "forEach ?line ranks"
  have eq: "WriteSubcommPatterns title view orders h ranks stats patterns
      = thenDo (WriteString title)
         (thenDo (WriteString ''\<newline>### Pattern(s) description\<newline>\<newline>'')
         (thenDo ?mid
         (thenDo (WriteString ''\<newline>\<newline>### Sub-communicator(s) information\<newline>\<newline>'')
            ?last)))"
    unfolding WriteSubcommPatterns_def r list.case by (rule refl)
  have okm: "writer_ok ?mid" by (rule forEach_pair_ok(1)) (rule writeDataToFile_ok)
  have om: "out ?mid = concat (map (\<lambda>(i, p). out (writeDataToFile (orders i) (h ! p)))
                     (enumerate 0 (view (lookupData patterns r0))))"
    by (rule forEach_pair_ok(2)) (rule writeDataToFile_ok)
  have okl: "writer_ok (?line r)" for r
    by (intro thenDo_ok(1) WriteString_ok patternCountLines_ok)
  have ol: "out (?line r) = ''-> Subcommunicator led by rank '' @ itoa r @ '':\<newline>''
                      @ out (patternCountLines h (TotalNumCalls (lookupStats stats r)) 0
                               (view (lookupData patterns r)))" for r
    by (simp only: thenDo_ok(2)[OF WriteString_ok patternCountLines_ok] WriteString_out append_assoc)
  have oka: "writer_ok ?last" by (intro forEach_ok(1) okl)
  have oa: "out ?last = concat (map (\<lambda>r. ''-> Subcommunicator led by rank '' @ itoa r @ '':\<newline>''
                      @ out (patternCountLines h (TotalNumCalls (lookupStats stats r)) 0
                               (view (lookupData patterns r)))) ranks)"
    by (subst forEach_ok(2)[OF okl]) (simp only: ol)
  have ok4: "writer_ok (thenDo (WriteString ''\<newline>\<newline>### Sub-communicator(s) information\<newline>\<newline>'') ?last)"
    by (intro thenDo_ok(1) WriteString_ok oka)
  have ok3: "writer_ok (thenDo ?mid (thenDo (WriteString ''\<newline>\<newline>### Sub-communicator(s) information\<newline>\<newline>'') ?last))"
    by (intro thenDo_ok(1) okm ok4)
  have ok2: "writer_ok (thenDo (WriteString ''\<newline>### Pattern(s) description\<newline>\<newline>'')
         (thenDo ?mid (thenDo (WriteString ''\<newline>\<newline>### Sub-communicator(s) information\<newline>\<newline>'') ?last)))"
    by (intro thenDo_ok(1) WriteString_ok ok3)
  show ?thesis
    unfolding eq
    by (simp only: thenDo_ok(2)[OF WriteString_ok ok2] thenDo_ok(2)[OF WriteString_ok ok3]
        thenDo_ok(2)[OF okm ok4] thenDo_ok(2)[OF WriteString_ok oka] WriteString_out om oa
        append_assoc)
qed

lemma writeReport_out:
  assumes "stats \<noteq> []"
  shows "out (writeReport orders h stats allPatterns)
      = report_title @ out (writeSections orders h (sort (map fst stats)) stats allPatterns)"
proof -
  have ne: "sort (map fst stats) \<noteq> []" using assms by (metis length_0_conv length_map length_sort)
  have eq: "writeReport orders h stats allPatterns
      = thenDo (WriteString report_title) (writeSections orders h (sort (map fst stats)) stats allPatterns)"
    by (rule ext) (simp add: writeReport_def report_title_def)
  show ?thesis
    unfolding eq
    by (simp only: thenDo_ok(2)[OF WriteString_ok writeSections_ok(1)[OF ne]] WriteString_out)
qed

subsection \<open>The report and the orders of its ranges\<close>

lemma forEach_cong:
  assumes "\<And>x. x \<in> set xs \<Longrightarrow> f x = g x"
  shows "forEach f xs = forEach g xs"
proof (rule ext)
  fix fd
  show "forEach f xs fd = forEach g xs fd"
    using assms
  proof (induction xs arbitrary: fd)
    case Nil
    show ?case by simp
  next
    case (Cons x xs)
    have "f x = g x" using Cons.prems by simp
    moreover have "forEach f xs fd' = forEach g xs fd'" for fd'
      using Cons.IH Cons.prems by simp
    ultimately show ?case by (simp split: prod.splits option.splits)
  qed
qed

lemma writeDataToFile_short:
  assumes "len (Send cd) \<le> 1" "len (Recv cd) \<le> 1"
  shows "writeDataToFile orders cd = writeDataToFile orders' cd"
  using assms by (simp add: writeDataToFile_def len_def rangeOver_short)

lemma WriteSubcommPatterns_orders:
  assumes "\<And>p. p \<in> set (view (lookupData patterns (hd ranks)))
             \<Longrightarrow> len (Send (h ! p)) \<le> 1 \<and> len (Recv (h ! p)) \<le> 1"
  shows "WriteSubcommPatterns title view orders h ranks stats patterns
       = WriteSubcommPatterns title view orders' h ranks stats patterns"
proof (cases ranks)
  case Nil
  then show ?thesis by (simp add: WriteSubcommPatterns_def)
next
  case (Cons r0 rs)
  have "forEach (\<lambda>(i, p). writeDataToFile (orders i) (h ! p))
          (enumerate 0 (view (lookupData patterns r0)))
      = forEach (\<lambda>(i, p). writeDataToFile (orders' i) (h ! p))
          (enumerate 0 (view (lookupData patterns r0)))"
  proof (rule forEach_cong)
    fix x assume x: "x \<in> set (enumerate 0 (view (lookupData patterns r0)))"
    obtain i p where ip: "x = (i, p)" by (cases x)
    with x have "p \<in> set (view (lookupData patterns r0))" by (auto simp: in_set_enumerate_eq)
    then have "len (Send (h ! p)) \<le> 1 \<and> len (Recv (h ! p)) \<le> 1"
      using assms Cons by simp
    then show "(case x of (i, p) \<Rightarrow> writeDataToFile (orders i) (h ! p))
        = (case x of (i, p) \<Rightarrow> writeDataToFile (orders' i) (h ! p))"
      unfolding ip by (simp add: writeDataToFile_short[of "h ! p" "orders i" "orders' i"])
  qed
  then show ?thesis by (simp add: WriteSubcommPatterns_def Cons)
qed

lemma writeSections_orders:
  assumes "\<And>p. p \<in> set (printed (lookupData allPatterns (hd ranks)))
             \<Longrightarrow> len (Send (h ! p)) \<le> 1 \<and> len (Recv (h ! p)) \<le> 1"
  shows "writeSections orders h ranks stats allPatterns
       = writeSections orders' h ranks stats allPatterns"
proof -
  have 1: "WriteSubcommNtoNPatterns (orders 0) h ranks stats allPatterns
      = WriteSubcommNtoNPatterns (orders' 0) h ranks stats allPatterns"
    unfolding WriteSubcommNtoNPatterns_def
    by (rule WriteSubcommPatterns_orders) (rule assms, simp add: printed_def)
  have 2: "WriteSubcomm1toNPatterns (orders 1) h ranks stats allPatterns
      = WriteSubcomm1toNPatterns (orders' 1) h ranks stats allPatterns"
    unfolding WriteSubcomm1toNPatterns_def
    by (rule WriteSubcommPatterns_orders) (rule assms, simp add: printed_def)
  have 3: "WriteSubcommNto1Patterns (orders 2) h ranks stats allPatterns
      = WriteSubcommNto1Patterns (orders' 2) h ranks stats allPatterns"
    unfolding WriteSubcommNto1Patterns_def
    by (rule WriteSubcommPatterns_orders) (rule assms, simp add: printed_def)
  show ?thesis
    by (rule ext) (simp only: writeSections_def 1 2 3)
qed

lemma AnalyzeSubCommsResults_silent:
  "AnalyzeSubCommsResults open_ok q orders h stats allPatterns = (None, None)
   \<longleftrightarrow> \<not> similarLoop h (map snd allPatterns) (- 1) (- 1) (- 1) (- 1) zero_Data"
  by (auto simp: AnalyzeSubCommsResults_def split: prod.splits)

lemma writeReport_perm:
  assumes "distinct (map fst stats)" and "distinct (map fst allPatterns)"
    and "mset stats' = mset stats" and "mset allPatterns' = mset allPatterns"
  shows "writeReport orders h stats' allPatterns' = writeReport orders h stats allPatterns"
proof -
  have m1: "map_of stats' = map_of stats" using assms(1,3) by (rule map_of_perm)
  have m2: "map_of allPatterns' = map_of allPatterns" using assms(2,4) by (rule map_of_perm)
  have s: "sort (map fst stats') = sort (map fst stats)" using assms(3) by (rule sort_keys_perm)
  have "writeSections orders h (sort (map fst stats)) stats' allPatterns'
      = writeSections orders h (sort (map fst stats)) stats allPatterns"
    by (rule writeSections_cong) (simp_all add: lookupStats_def lookupData_def m1 m2)
  then show ?thesis by (simp add: writeReport_def s)
qed

lemma writeReport_text:
  assumes "stats \<noteq> []"
  shows "writer_ok (writeReport orders h stats allPatterns)"
    and "out (writeReport orders h stats allPatterns)
       = report_title
         @ section_text (WriteSubcommNtoNPatterns (orders 0)) NToN h (sort (map fst stats)) stats allPatterns
         @ section_text (WriteSubcomm1toNPatterns (orders 1)) OneToN h (sort (map fst stats)) stats allPatterns
         @ section_text (WriteSubcommNto1Patterns (orders 2)) NToOne h (sort (map fst stats)) stats allPatterns
         @ ''\<newline>## All 0 counts pattern; no data exchanged\<newline>\<newline>''
         @ concat (map (\<lambda>rank. out (emptyTallyLine stats allPatterns rank))
                       (sort (map fst stats)))
         @ ''\<newline># Counts analysis\<newline>\<newline>''
         @ concat (map (\<lambda>rank. ''-> Sub-communicator led by rank '' @ itoa rank
                          @ '':\<newline>''
                          @ concat (map (\<lambda>b. out (binLine b)) (Bins (lookupStats stats rank))))
                       (sort (map fst stats)))"
proof -
  let ?ranks = "sort (map fst stats)"
  have ne: "?ranks \<noteq> []" using assms by (metis length_0_conv length_map length_sort)
  have eq: "writeReport orders h stats allPatterns
      = thenDo (WriteString report_title) (writeSections orders h ?ranks stats allPatterns)"
    by (rule ext) (simp add: writeReport_def report_title_def)
  show "writer_ok (writeReport orders h stats allPatterns)"
    unfolding eq by (intro thenDo_ok(1) WriteString_ok writeSections_ok(1)[OF ne])
  show "out (writeReport orders h stats allPatterns)
       = report_title
         @ section_text (WriteSubcommNtoNPatterns (orders 0)) NToN h ?ranks stats allPatterns
         @ section_text (WriteSubcomm1toNPatterns (orders 1)) OneToN h ?ranks stats allPatterns
         @ section_text (WriteSubcommNto1Patterns (orders 2)) NToOne h ?ranks stats allPatterns
         @ ''\<newline>## All 0 counts pattern; no data exchanged\<newline>\<newline>''
         @ concat (map (\<lambda>rank. out (emptyTallyLine stats allPatterns rank)) ?ranks)
         @ ''\<newline># Counts analysis\<newline>\<newline>''
         @ concat (map (\<lambda>rank. ''-> Sub-communicator led by rank '' @ itoa rank
                          @ '':\<newline>''
                          @ concat (map (\<lambda>b. out (binLine b)) (Bins (lookupStats stats rank))))
                       ?ranks)"
    by (simp only: writeReport_out[OF assms] writeSections_ok(2)[OF ne])
qed

lemma AnalyzeSubCommsResults_written:
  assumes "AnalyzeSubCommsResults True None orders h stats allPatterns \<noteq> (None, None)"
    and "stats \<noteq> []"
  shows "AnalyzeSubCommsResults True None orders h stats allPatterns
       = (None, Some \<lparr>written = out (writeReport orders h stats allPatterns), quota = None\<rparr>)"
proof -
  have sim: "similarLoop h (map snd allPatterns) (- 1) (- 1) (- 1) (- 1) zero_Data"
    using assms(1) by (simp add: AnalyzeSubCommsResults_silent)
  have "writeReport orders h stats allPatterns emptyFile
      = (None, emptyFile\<lparr>written := written emptyFile @ out (writeReport orders h stats allPatterns)\<rparr>)"
    by (rule writer_okD[OF writeReport_text(1)[OF assms(2)]]) (simp add: emptyFile_def)
  then have "writeReport orders h stats allPatterns \<lparr>written = [], quota = None\<rparr>
      = (None, \<lparr>written = out (writeReport orders h stats allPatterns), quota = None\<rparr>)"
    by (simp add: emptyFile_def)
  then show ?thesis using sim by (simp add: AnalyzeSubCommsResults_def)
qed
subsection \<open>The example inputs evaluated\<close>

lemma history_run: "addPatterns history ([], zero_Data) = (history_heap, history_Data)"
  by (simp add: history_def history_heap_def history_Data_def sig_a_def sig_a'_def sig_b_def
      addPattern_def zero_Data_def CompareCallPatterns_def len_def wrap64_def Let_def)

lemma history_wf: "wf_calls history" "wf_map sig_a" "wf_map sig_b"
  by (simp_all add: history_def wf_calls_def wf_map_def sig_a_def sig_a'_def sig_b_def)



lemma example_run:
  "ParseFiles example_counts zero_SendRecvStats 3 [] =
     (zero_SendRecvStats\<lparr>TotalNumCalls := 3\<rparr>,
      ([\<lparr>Send = sig_b, Recv = sig_b, Count = 2, Calls = [0, 2]\<rparr>,
        \<lparr>Send = NilMap, Recv = NilMap, Count = 1, Calls = [1]\<rparr>,
        \<lparr>Send = NilMap, Recv = NilMap, Count = 1, Calls = [1]\<rparr>],
       \<lparr>AllPatterns = [0, 1], OneToN = [], NToN = [], NToOne = [], Empty = [2]\<rparr>), None)"
  by (simp add: ParseFiles_def example_counts_def zero_SendRecvStats_def zero_Data_def
      addPattern_def trackEmpty_def sig_b_def CompareCallPatterns_def len_def wrap64_def Let_def)

lemma two_groups_built:
  "addPatterns [(0, sig_b, sig_b)] ([], zero_Data)
     = ([\<lparr>Send = sig_b, Recv = sig_b, Count = 1, Calls = [0]\<rparr>], group_b)"
  "addPatterns [(0, sig_c, sig_c)] ([\<lparr>Send = sig_b, Recv = sig_b, Count = 1, Calls = [0]\<rparr>], zero_Data)
     = (two_groups_heap, group_c)"
  by (simp_all add: two_groups_heap_def group_b_def group_c_def sig_b_def sig_c_def zero_Data_def
      addPattern_def CompareCallPatterns_def len_def wrap64_def Let_def)

lemma two_groups_Same: "Same two_groups_heap group_b group_c"
  by (simp add: two_groups_heap_def group_b_def group_c_def sig_b_def sig_c_def
      Same_def sameListOfPatterns_def)

lemma two_groups_lengths: "view_lengths group_c = view_lengths group_b"
  by (simp add: view_lengths_def group_b_def group_c_def)

lemma two_groups_similar:
  "similarLoop two_groups_heap [group_b, group_c] (- 1) (- 1) (- 1) (- 1) zero_Data"
  by (simp only: similarLoop_start) (simp add: two_groups_Same two_groups_lengths)

lemma data_text_listed:
  "out (writeDataToFile ([], []) (history_heap ! 0))
   = ''4 ranks sent to 4 other ranks\<newline>1 ranks sent to 101 other ranks\<newline>''
     @ ''4 ranks recv'd from 4 other ranks\<newline>1 ranks recv'd from 101 other ranks\<newline>''"
  by (simp add: out_def emptyFile_def writeDataToFile_def thenDo_def WriteString_def
      history_heap_def sig_a_def sentLine_def recvLine_def itoa_def digits.simps)

lemma data_text_swapped:
  "out (writeDataToFile ([1, 0], []) (history_heap ! 0))
   = ''1 ranks sent to 101 other ranks\<newline>4 ranks sent to 4 other ranks\<newline>''
     @ ''4 ranks recv'd from 4 other ranks\<newline>1 ranks recv'd from 101 other ranks\<newline>''"
  by (simp add: out_def emptyFile_def writeDataToFile_def thenDo_def WriteString_def
      rangeOver_def history_heap_def sig_a_def sentLine_def recvLine_def itoa_def digits.simps)

lemma history_Same: "Same history_heap history_Data history_Data"
  by (simp add: history_heap_def history_Data_def sig_a_def sig_b_def Same_def
      sameListOfPatterns_def)

lemma two_patterns_pass:
  "AnalyzeSubCommsResults open_ok q orders history_heap stats two_patterns \<noteq> (None, None)"
  "AnalyzeSubCommsResults open_ok q orders history_heap stats (rev two_patterns) \<noteq> (None, None)"
  by (simp_all only: AnalyzeSubCommsResults_silent two_patterns_def rev.simps append.simps
      list.map snd_conv similarLoop_start) (simp_all add: history_Same)

lemma two_ranks_sorted: "sort (map fst two_stats) = [0, 3]"
  by (simp add: two_stats_def)

lemma two_lookups:
  "lookupData two_patterns 0 = history_Data" "lookupData two_patterns 3 = history_Data"
  "TotalNumCalls (lookupStats two_stats 0) = 4" "TotalNumCalls (lookupStats two_stats 3) = 4"
  "Bins (lookupStats two_stats 0) = []" "Bins (lookupStats two_stats 3) = []"
  by (simp_all add: lookupData_def two_patterns_def lookupStats_def two_stats_def
      zero_SendRecvStats_def)

lemma history_views:
  "NToN history_Data = [0]" "OneToN history_Data = [0]" "NToOne history_Data = []"
  "Empty history_Data = []" "Count (history_heap ! 0) = 2"
  by (simp_all add: history_Data_def history_heap_def)

lemma example_numbers: "itoa 0 = ''0''" "itoa 2 = ''2''" "itoa 3 = ''3''" "itoa 4 = ''4''"
  by (simp_all add: itoa_def digits.simps)

lemma example_section:
  "out (WriteSubcommPatterns title view orders history_heap [0, 3] two_stats two_patterns)
     = title @ ''\<newline>### Pattern(s) description\<newline>\<newline>''
       @ concat (map (\<lambda>(i, p). out (writeDataToFile (orders i) (history_heap ! p)))
                     (enumerate 0 (view history_Data)))
       @ ''\<newline>\<newline>### Sub-communicator(s) information\<newline>\<newline>''
       @ ''-> Subcommunicator led by rank 0:\<newline>''
       @ out (patternCountLines history_heap 4 0 (view history_Data))
       @ ''-> Subcommunicator led by rank 3:\<newline>''
       @ out (patternCountLines history_heap 4 0 (view history_Data))"
  by (subst WriteSubcommPatterns_out[where ?r0.0 = 0 and rs = "[3]"])
     (simp_all add: two_lookups example_numbers)

lemma example_count_line:
  "out (patternCountLines history_heap 4 0 [0])
   = CHR 0x09 # ''pattern #0: 2/4 alltoallv calls\<newline>''"
  by (simp add: out_def emptyFile_def WriteString_def history_views example_numbers)

lemma example_report_text:
  assumes "out (writeDataToFile (orders 0 0) (history_heap ! 0)) = a"
    and "out (writeDataToFile (orders 1 0) (history_heap ! 0)) = b"
  shows "out (writeReport orders history_heap two_stats two_patterns) = example_report a b"
proof -
  have ne: "two_stats \<noteq> []" by (simp add: two_stats_def)
  have s1: "section_text (WriteSubcommNtoNPatterns (orders 0)) NToN history_heap [0, 3]
        two_stats two_patterns
      = ''## N to n patterns\<newline>\<newline>'' @ ''\<newline>### Pattern(s) description\<newline>\<newline>''
        @ a @ example_counts_text"
    by (simp add: section_text_def two_lookups history_views WriteSubcommNtoNPatterns_def
        example_section example_count_line assms example_counts_text_def enumerate_eq_zip)
  have s2: "section_text (WriteSubcomm1toNPatterns (orders 1)) OneToN history_heap [0, 3]
        two_stats two_patterns
      = ''## 1 to n patterns\<newline>\<newline>'' @ ''\<newline>### Pattern(s) description\<newline>\<newline>''
        @ b @ example_counts_text"
    by (simp add: section_text_def two_lookups history_views WriteSubcomm1toNPatterns_def
        example_section example_count_line assms(2)[unfolded One_nat_def] example_counts_text_def
        enumerate_eq_zip)
  have s3: "section_text (WriteSubcommNto1Patterns (orders 2)) NToOne history_heap [0, 3]
        two_stats two_patterns = []"
    by (simp add: section_text_def two_lookups history_views)
  have t: "out (emptyTallyLine two_stats two_patterns r) = []" if "r = 0 \<or> r = 3" for r
    using that by (auto simp: out_def emptyTallyLine_def two_lookups history_views emptyFile_def)
  show ?thesis
    unfolding writeReport_text(2)[OF ne] two_ranks_sorted s1 s2 s3
    by (simp add: t two_lookups example_numbers example_report_def report_title_def)
qed
section \<open>Claim C1\<close>


section \<open>Claim C2\<close>

text \<open>
  Claim C2. When every call of a pass over calls \<open>0 .. numCalls - 1\<close> parses,
  \<open>ParseFiles\<close> returns without error, the counts of the buckets of \<open>AllPatterns\<close> add up
  to \<open>numCalls\<close>, the call lists of the buckets together hold every call number exactly
  once, and so every call number is in the call list of exactly one bucket.
\<close>

theorem ParseFiles_counts_every_call_once:
  assumes "0 \<le> numCalls" and "\<forall>i \<in> {0..<numCalls}. snd (counts_ParseFiles i) = None"
  shows "\<exists>stats h d. ParseFiles counts_ParseFiles NewSendRecvStats numCalls h0 = (stats, (h, d), None)
      \<and> sum_list (map (\<lambda>a. Count (h ! a)) (AllPatterns d)) = numCalls
      \<and> mset (concat (map (\<lambda>a. Calls (h ! a)) (AllPatterns d))) = mset [0..numCalls - 1]
      \<and> (\<forall>i \<in> {0..<numCalls}. \<exists>!a. a \<in> set (AllPatterns d) \<and> i \<in> set (Calls (h ! a)))"
proof -
  from ParseFiles_run[OF assms(2), where new = NewSendRecvStats and ?h0.0 = h0] assms(1)
  obtain st where run: "ParseFiles counts_ParseFiles NewSendRecvStats numCalls h0
            = (NewSendRecvStats\<lparr>TotalNumCalls := TotalNumCalls NewSendRecvStats + numCalls\<rparr>, st, None)"
    and inv: "pf_inv h0 counts_ParseFiles numCalls st" by (auto simp: max_def)
  obtain h d where st: "st = (h, d)" by (cases st)
  from inv st have dist: "distinct (AllPatterns d)"
    and calls: "mset (concat (map (\<lambda>a. Calls (h ! a)) (AllPatterns d))) = mset [0..numCalls - 1]"
    and tot: "sum_list (map (\<lambda>a. Count (h ! a)) (AllPatterns d)) = numCalls"
    by (simp_all add: pf_inv_def bucket_calls_def total_count_def)
  have "\<exists>!a. a \<in> set (AllPatterns d) \<and> i \<in> set (Calls (h ! a))" if "i \<in> {0..<numCalls}" for i
  proof (rule unique_bucket[OF dist])
    have "distinct [0..numCalls - 1]" by simp
    moreover have "i \<in> set [0..numCalls - 1]" using that by auto
    ultimately have "count (mset [0..numCalls - 1]) i = 1" by (simp add: distinct_count_atmost_1)
    then show "count (mset (concat (map (\<lambda>a. Calls (h ! a)) (AllPatterns d)))) i = 1"
      using calls by simp
  qed
  with run st calls tot show ?thesis by blast
qed

theorem ParseFiles_counts_every_call_once_witness:
  "(0::int) \<le> 3 \<and> snd (example_counts 0) = None \<and> snd (example_counts 1) = None
   \<and> snd (example_counts 2) = None
   \<and> (\<exists>stats h d. ParseFiles example_counts zero_SendRecvStats 3 [] = (stats, (h, d), None)
        \<and> sum_list (map (\<lambda>a. Count (h ! a)) (AllPatterns d)) = 3
        \<and> mset (concat (map (\<lambda>a. Calls (h ! a)) (AllPatterns d))) = mset [0, 1, 2]
        \<and> (\<exists>!a. a \<in> set (AllPatterns d) \<and> 0 \<in> set (Calls (h ! a)))
        \<and> (\<exists>!a. a \<in> set (AllPatterns d) \<and> 1 \<in> set (Calls (h ! a)))
        \<and> (\<exists>!a. a \<in> set (AllPatterns d) \<and> 2 \<in> set (Calls (h ! a))))"
proof -
  have parsed: "\<forall>i \<in> {0..<3}. snd (example_counts i) = None"
    by (simp add: example_counts_def)
  have upto: "[0..3 - 1] = [0, 1, 2::int]" by (simp add: upto_rec1)
  from ParseFiles_counts_every_call_once[OF _ parsed, of zero_SendRecvStats "[]"]
  obtain stats h d where
    run: "ParseFiles example_counts zero_SendRecvStats 3 [] = (stats, (h, d), None)"
    and tot: "sum_list (map (\<lambda>a. Count (h ! a)) (AllPatterns d)) = 3"
    and calls: "mset (concat (map (\<lambda>a. Calls (h ! a)) (AllPatterns d))) = mset [0..3 - 1]"
    and once: "\<forall>i \<in> {0..<3}. \<exists>!a. a \<in> set (AllPatterns d) \<and> i \<in> set (Calls (h ! a))"
    by auto
  have "\<exists>!a. a \<in> set (AllPatterns d) \<and> 0 \<in> set (Calls (h ! a))"
    "\<exists>!a. a \<in> set (AllPatterns d) \<and> 1 \<in> set (Calls (h ! a))"
    "\<exists>!a. a \<in> set (AllPatterns d) \<and> 2 \<in> set (Calls (h ! a))"
    using once by simp_all
  with run tot calls upto show ?thesis
    by (intro conjI exI[of _ stats] exI[of _ h] exI[of _ d]) (simp_all add: example_counts_def)
qed

section \<open>Claim C3\<close>

text \<open>
  Claim C3. When \<open>addPattern\<close> creates a bucket whose send signature holds counts (each
  entry a pair of non-negative numbers whose hundredfold fits a Go \<open>int\<close>), the view
  \<open>OneToN\<close> gains one reference to the bucket for every entry with
  \<open>peerCount > numRanks * 100\<close>, \<open>NToN\<close> one for every entry with \<open>peerCount = numRanks\<close>, and
  \<open>NToOne\<close> one for every entry with \<open>peerCount * 100 < numRanks\<close>, and the views gain
  nothing else; so an entry that passes none of the three tests adds the bucket to no
  view. The entry \<open>(101, 1)\<close> puts a bucket into \<open>OneToN\<close>; the entry \<open>(100, 1)\<close> puts it
  into no view.
\<close>

theorem topology_thresholds:
  assumes cnt: "\<forall>e \<in> set (entries s). count_entry e"
    and new: "filter (\<lambda>b. matches (h ! b) s r) (AllPatterns d) = []"
  shows "OneToN (snd (addPattern c s r (h, d)))
           = OneToN d @ replicate (length (filter (\<lambda>(peerCount, numRanks).
                 peerCount > numRanks * 100) (entries s))) (length h)
       \<and> NToN (snd (addPattern c s r (h, d)))
           = NToN d @ replicate (length (filter (\<lambda>(peerCount, numRanks).
                 peerCount = numRanks) (entries s))) (length h)
       \<and> NToOne (snd (addPattern c s r (h, d)))
           = NToOne d @ replicate (length (filter (\<lambda>(peerCount, numRanks).
                 peerCount * 100 < numRanks) (entries s))) (length h)
       \<and> OneToN (snd (addPattern c (MkMap [(101, 1)]) r ([], zero_Data))) = [0]
       \<and> OneToN (snd (addPattern c (MkMap [(100, 1)]) r ([], zero_Data))) = []
       \<and> NToN (snd (addPattern c (MkMap [(100, 1)]) r ([], zero_Data))) = []
       \<and> NToOne (snd (addPattern c (MkMap [(100, 1)]) r ([], zero_Data))) = []"
proof -
  from new have "\<forall>b \<in> set (AllPatterns d). \<not> matches (h ! b) s r"
    by (simp add: filter_empty_conv)
  then have "mergeLoop h (AllPatterns d) c s r = None" by (simp add: mergeLoop_None)
  then have res: "snd (addPattern c s r (h, d))
      = detectLoop (length h) (entries s) (d\<lparr>AllPatterns := AllPatterns d @ [length h]\<rparr>)"
    by (simp add: addPattern_def Let_def)
  have f1: "filter rule1toN (entries s)
      = filter (\<lambda>(peerCount, numRanks). peerCount > numRanks * 100) (entries s)"
    using cnt by (intro filter_cong refl) (auto simp: count_entry_rules(1))
  have f2: "filter ruleNtoN (entries s)
      = filter (\<lambda>(peerCount, numRanks). peerCount = numRanks) (entries s)"
    using cnt by (intro filter_cong refl) (auto simp: count_entry_rules(2))
  have f3: "filter ruleNto1 (entries s)
      = filter (\<lambda>(peerCount, numRanks). peerCount * 100 < numRanks) (entries s)"
    using cnt by (intro filter_cong refl) (auto simp: count_entry_rules(3))
  have ex: "OneToN (snd (addPattern c (MkMap [(101, 1)]) r ([], zero_Data))) = [0]"
    "OneToN (snd (addPattern c (MkMap [(100, 1)]) r ([], zero_Data))) = []"
    "NToN (snd (addPattern c (MkMap [(100, 1)]) r ([], zero_Data))) = []"
    "NToOne (snd (addPattern c (MkMap [(100, 1)]) r ([], zero_Data))) = []"
    by (simp_all add: addPattern_def zero_Data_def wrap64_def Let_def)
  show ?thesis
    using detectLoop_views[of "length h" "entries s" "d\<lparr>AllPatterns := AllPatterns d @ [length h]\<rparr>"]
    by (simp add: res f1 f2 f3 ex)
qed

theorem topology_thresholds_witness:
  "wf_map sig_mixed \<and> list_all count_entry (entries sig_mixed)
   \<and> filter (\<lambda>b. matches (history_heap ! b) sig_mixed NilMap) (AllPatterns history_Data) = []
   \<and> OneToN (snd (addPattern 9 sig_mixed NilMap (history_heap, history_Data))) = [0, 3]
   \<and> NToN (snd (addPattern 9 sig_mixed NilMap (history_heap, history_Data))) = [0, 3]
   \<and> NToOne (snd (addPattern 9 sig_mixed NilMap (history_heap, history_Data))) = [3]"
proof -
  have cnt: "\<forall>e \<in> set (entries sig_mixed). count_entry e"
    by (simp add: sig_mixed_def count_entry_def)
  have new: "filter (\<lambda>b. matches (history_heap ! b) sig_mixed NilMap) (AllPatterns history_Data) = []"
    by (simp add: history_Data_def history_heap_def matches_def sig_mixed_def sig_a_def sig_b_def
        CompareCallPatterns_def len_def)
  from topology_thresholds[OF cnt new, of 9]
  have "OneToN (snd (addPattern 9 sig_mixed NilMap (history_heap, history_Data))) = [0, 3]"
    "NToN (snd (addPattern 9 sig_mixed NilMap (history_heap, history_Data))) = [0, 3]"
    "NToOne (snd (addPattern 9 sig_mixed NilMap (history_heap, history_Data))) = [3]"
    by (simp_all add: sig_mixed_def history_heap_def history_Data_def)
  moreover have "wf_map sig_mixed" by (simp add: wf_map_def sig_mixed_def)
  ultimately show ?thesis using cnt new by (simp add: list_all_iff)
qed

section \<open>Claim C4\<close>

text \<open>
  Claim C4, as stated, fails: a bucket whose send signature has an entry for two rules is
  referenced by two views, and one with two entries for the same rule is referenced
  twice by one view.
\<close>

theorem bucket_in_two_views_counterexample:
  "AllPatterns (snd (addPatterns [(0, sig_a, sig_a)] ([], zero_Data))) = [0]
   \<and> OneToN (snd (addPatterns [(0, sig_a, sig_a)] ([], zero_Data))) = [0]
   \<and> NToN (snd (addPatterns [(0, sig_a, sig_a)] ([], zero_Data))) = [0]
   \<and> NToN (snd (addPatterns [(0, MkMap [(4, 4), (5, 5)], NilMap)] ([], zero_Data))) = [0, 0]"
  by (simp add: addPattern_def zero_Data_def sig_a_def wrap64_def Let_def)

text \<open>
  Claim C4, amended. In every collection built by \<open>addPattern\<close> calls, the three topology
  views reference buckets of \<open>AllPatterns\<close> only, and a bucket is referenced, over the three
  views together, at most once per entry of its send signature; in particular a bucket
  with at most one send entry is in at most one view, at most once. \<open>addPattern\<close> never
  adds to \<open>Empty\<close>.
\<close>

theorem views_reference_per_entry:
  assumes "addPatterns cs (h0, zero_Data) = (h, d)"
  shows "set (OneToN d) \<union> set (NToN d) \<union> set (NToOne d) \<subseteq> set (AllPatterns d)
       \<and> (\<forall>a \<in> set (AllPatterns d).
             count_list (OneToN d) a + count_list (NToN d) a + count_list (NToOne d) a
             \<le> len (Send (h ! a)))
       \<and> Empty d = []"
proof -
  have "views_inv (addPatterns cs (h0, zero_Data))"
    by (rule views_inv_addPatterns[OF views_inv_init])
  with assms show ?thesis by (simp add: views_inv_def)
qed

theorem views_reference_per_entry_witness:
  "addPatterns history ([], zero_Data) = (history_heap, history_Data)
   \<and> set (OneToN history_Data) \<union> set (NToN history_Data) \<union> set (NToOne history_Data)
       \<subseteq> set (AllPatterns history_Data)
   \<and> count_list (OneToN history_Data) 0 + count_list (NToN history_Data) 0
       + count_list (NToOne history_Data) 0 \<le> len (Send (history_heap ! 0))
   \<and> count_list (OneToN history_Data) 1 + count_list (NToN history_Data) 1
       + count_list (NToOne history_Data) 1 \<le> len (Send (history_heap ! 1))
   \<and> Empty history_Data = []"
proof -
  have "0 \<in> set (AllPatterns history_Data)" "1 \<in> set (AllPatterns history_Data)"
    by (simp_all add: history_Data_def)
  with views_reference_per_entry[OF history_run] history_run show ?thesis by blast
qed

section \<open>Claim C5\<close>

text \<open>
  Claim C5 at a failing input. The result of \<open>patternIsInList\<close> does not depend on
  \<open>numPeers\<close>: its test compares \<open>numP\<close> with itself. The only send entry of the reference
  group below is \<open>(1, 2)\<close> and the only send entry of the target group is \<open>(3, 2)\<close>, so no
  entry of the target has the pair of the reference. \<open>Same\<close> returns true all the same,
  and the first loop of \<open>AnalyzeSubCommsResults\<close> accepts the two groups.
\<close>

theorem Same_ignores_peer_count:
  "patternIsInList h numPeers numRanks ctx patterns = patternIsInList h numPeers' numRanks ctx patterns
   \<and> addPatterns [(0, sig_b, sig_b)] ([], zero_Data) = (take 1 two_groups_heap, group_b)
   \<and> addPatterns [(0, sig_c, sig_c)] (take 1 two_groups_heap, zero_Data) = (two_groups_heap, group_c)
   \<and> entries (Send (two_groups_heap ! 0)) = [(1, 2)]
   \<and> entries (Send (two_groups_heap ! 1)) = [(3, 2)]
   \<and> Same two_groups_heap group_b group_c = True
   \<and> similarLoop two_groups_heap [group_b, group_c] (- 1) (- 1) (- 1) (- 1) zero_Data = True"
proof -
  have t: "take 1 two_groups_heap = [\<lparr>Send = sig_b, Recv = sig_b, Count = 1, Calls = [0]\<rparr>]"
    by (simp add: two_groups_heap_def)
  have e: "entries (Send (two_groups_heap ! 0)) = [(1, 2)]"
    "entries (Send (two_groups_heap ! 1)) = [(3, 2)]"
    by (simp_all add: two_groups_heap_def sig_b_def sig_c_def)
  have s: "Same two_groups_heap group_b group_c = True" using two_groups_Same by simp
  have l: "similarLoop two_groups_heap [group_b, group_c] (- 1) (- 1) (- 1) (- 1) zero_Data = True"
    using two_groups_similar by (rule eqTrueI)
  show ?thesis
    unfolding t by (intro conjI two_groups_built e s l patternIsInList_ignores_numPeers)
qed

section \<open>Claim C6\<close>

text \<open>
  Claim C6, as stated, fails. \<open>Same\<close> is not symmetric and \<open>AnalyzeSubCommsResults\<close> calls it
  with the first group that \<open>range\<close> visits as its first argument only. The group with the
  maps \<open>{1: 2, 5: 3}\<close> fails the check against the group with the maps \<open>{1: 2}\<close>, and
  the two groups have the same four lengths. When \<open>range\<close> visits the second group first,
  the check made is the other one, it passes, and the consolidated file is written.
  When \<open>range\<close> visits the first group first, nothing is written.
\<close>

theorem Same_one_way_report_written_counterexample:
  "addPatterns [(0, sig_b, sig_b)] ([], zero_Data)
     = ([\<lparr>Send = sig_b, Recv = sig_b, Count = 1, Calls = [0]\<rparr>], group_narrow)
   \<and> addPatterns [(0, sig_d, sig_d)]
         ([\<lparr>Send = sig_b, Recv = sig_b, Count = 1, Calls = [0]\<rparr>], zero_Data)
     = (wide_heap, group_wide)
   \<and> view_lengths group_wide = view_lengths group_narrow
   \<and> \<not> Same wide_heap group_wide group_narrow
   \<and> Same wide_heap group_narrow group_wide
   \<and> AnalyzeSubCommsResults True None as_listed wide_heap two_ranks
         [(0, group_narrow), (1, group_wide)]
     = (None, Some \<lparr>written = report_title
           @ ''\<newline>## All 0 counts pattern; no data exchanged\<newline>\<newline>''
           @ ''\<newline># Counts analysis\<newline>\<newline>''
           @ ''-> Sub-communicator led by rank 0:\<newline>''
           @ ''-> Sub-communicator led by rank 1:\<newline>'', quota = None\<rparr>)
   \<and> AnalyzeSubCommsResults True None as_listed wide_heap two_ranks
         [(1, group_wide), (0, group_narrow)]
     = (None, None)"
proof -
  have built: "addPatterns [(0, sig_b, sig_b)] ([], zero_Data)
     = ([\<lparr>Send = sig_b, Recv = sig_b, Count = 1, Calls = [0]\<rparr>], group_narrow)"
    "addPatterns [(0, sig_d, sig_d)]
         ([\<lparr>Send = sig_b, Recv = sig_b, Count = 1, Calls = [0]\<rparr>], zero_Data)
     = (wide_heap, group_wide)"
    by (simp_all add: wide_heap_def group_narrow_def group_wide_def sig_b_def sig_d_def
        zero_Data_def addPattern_def CompareCallPatterns_def len_def wrap64_def Let_def)
  have lens: "view_lengths group_wide = view_lengths group_narrow"
    by (simp add: view_lengths_def group_narrow_def group_wide_def)
  have no: "\<not> Same wide_heap group_wide group_narrow"
    by (simp add: wide_heap_def group_narrow_def group_wide_def sig_b_def sig_d_def
        Same_def sameListOfPatterns_def)
  have yes: "Same wide_heap group_narrow group_wide"
    by (simp add: wide_heap_def group_narrow_def group_wide_def sig_b_def sig_d_def
        Same_def sameListOfPatterns_def)
  have pass: "similarLoop wide_heap (map snd [(0::int, group_narrow), (1, group_wide)])
      (- 1) (- 1) (- 1) (- 1) zero_Data"
    by (simp only: list.map snd_conv similarLoop_start) (simp add: yes lens)
  have stop: "\<not> similarLoop wide_heap (map snd [(1::int, group_wide), (0, group_narrow)])
      (- 1) (- 1) (- 1) (- 1) zero_Data"
    by (simp only: list.map snd_conv similarLoop_start) (simp add: no)
  have ranks: "sort (map fst two_ranks) = [0, 1]" by (simp add: two_ranks_def)
  have l: "lookupData [(0, group_narrow), (1, group_wide)] 0 = group_narrow"
    "lookupData [(0, group_narrow), (1, group_wide)] 1 = group_wide"
    by (simp_all add: lookupData_def)
  have e: "NToN group_narrow = []" "OneToN group_narrow = []" "NToOne group_narrow = []"
    "Empty group_narrow = []" "Empty group_wide = []"
    by (simp_all add: group_narrow_def group_wide_def)
  have bins: "Bins (lookupStats two_ranks r) = []" for r
    by (simp add: lookupStats_def two_ranks_def zero_SendRecvStats_def)
  have i: "itoa 0 = ''0''" "itoa 1 = ''1''" by (simp_all add: itoa_def digits.simps)
  have report: "writeReport as_listed wide_heap two_ranks [(0, group_narrow), (1, group_wide)]
        \<lparr>written = [], quota = None\<rparr>
      = (None, \<lparr>written = report_title
           @ ''\<newline>## All 0 counts pattern; no data exchanged\<newline>\<newline>''
           @ ''\<newline># Counts analysis\<newline>\<newline>''
           @ ''-> Sub-communicator led by rank 0:\<newline>''
           @ ''-> Sub-communicator led by rank 1:\<newline>'', quota = None\<rparr>)"
    by (simp add: writeReport_def ranks writeSections_def l e bins i thenDo_def WriteString_def
        emptyTallyLine_def report_title_def)
  have wr: "AnalyzeSubCommsResults True None as_listed wide_heap two_ranks
         [(0, group_narrow), (1, group_wide)]
     = (None, Some \<lparr>written = report_title
           @ ''\<newline>## All 0 counts pattern; no data exchanged\<newline>\<newline>''
           @ ''\<newline># Counts analysis\<newline>\<newline>''
           @ ''-> Sub-communicator led by rank 0:\<newline>''
           @ ''-> Sub-communicator led by rank 1:\<newline>'', quota = None\<rparr>)"
    unfolding AnalyzeSubCommsResults_def using pass by (simp only: report) simp
  have sil: "AnalyzeSubCommsResults True None as_listed wide_heap two_ranks
         [(1, group_wide), (0, group_narrow)]
     = (None, None)"
    unfolding AnalyzeSubCommsResults_def using stop by simp
  show ?thesis using built lens no yes wr sil by (intro conjI)
qed

text \<open>
  Claim C6, amended. In whatever order \<open>range\<close> visits the groups,
  \<open>AnalyzeSubCommsResults\<close> returns a nil error without creating the consolidated file
  exactly when two groups differ in the number of entries of \<open>AllPatterns\<close>, \<open>NToOne\<close>,
  \<open>NToN\<close> or \<open>OneToN\<close>, or \<open>Same (reference, g)\<close> fails for the reference, the first group
  visited, and a group \<open>g\<close> visited after it. The outcome of opening and writing the file
  and the orders of the ranges over signature maps play no part.
\<close>

theorem AnalyzeSubCommsResults_heterogeneous_silent:
  "AnalyzeSubCommsResults open_ok quota0 orders h stats allPatterns = (None, None)
   \<longleftrightarrow> (\<exists>p \<in> set (map snd allPatterns). \<exists>q \<in> set (map snd allPatterns).
              view_lengths p \<noteq> view_lengths q)
        \<or> (\<exists>q \<in> set (tl (map snd allPatterns)). \<not> Same h (hd (map snd allPatterns)) q)"
  (is "?silent \<longleftrightarrow> ?lens \<or> ?same")
proof -
  have res: "?silent \<longleftrightarrow> \<not> similarLoop h (map snd allPatterns) (- 1) (- 1) (- 1) (- 1) zero_Data"
    by (auto simp: AnalyzeSubCommsResults_def split: prod.splits)
  show ?thesis
  proof (cases "map snd allPatterns")
    case Nil
    then show ?thesis unfolding res by simp
  next
    case (Cons p ps)
    have "(\<exists>q \<in> set ps. \<not> (view_lengths q = view_lengths p \<and> Same h p q))
        \<longleftrightarrow> (\<exists>a \<in> set (p # ps). \<exists>b \<in> set (p # ps). view_lengths a \<noteq> view_lengths b)
            \<or> (\<exists>q \<in> set ps. \<not> Same h p q)"
      (is "?l \<longleftrightarrow> ?r1 \<or> ?r2")
    proof
      assume ?l
      then obtain q where q: "q \<in> set ps" "view_lengths q \<noteq> view_lengths p \<or> \<not> Same h p q"
        by blast
      from q(2) show "?r1 \<or> ?r2"
      proof
        assume "view_lengths q \<noteq> view_lengths p"
        with q(1) have ?r1 by (intro bexI[of _ q] bexI[of _ p]) simp_all
        then show ?thesis ..
      next
        assume "\<not> Same h p q"
        with q(1) have ?r2 by blast
        then show ?thesis ..
      qed
    next
      assume "?r1 \<or> ?r2"
      then show ?l
      proof
        assume ?r1
        then obtain a b where ab: "a \<in> set (p # ps)" "b \<in> set (p # ps)"
          "view_lengths a \<noteq> view_lengths b" by blast
        then have "view_lengths a \<noteq> view_lengths p \<or> view_lengths b \<noteq> view_lengths p" by auto
        then show ?l
        proof
          assume n: "view_lengths a \<noteq> view_lengths p"
          with ab(1) have "a \<in> set ps" by auto
          with n show ?l by blast
        next
          assume n: "view_lengths b \<noteq> view_lengths p"
          with ab(2) have "b \<in> set ps" by auto
          with n show ?l by blast
        qed
      next
        assume ?r2
        then show ?l by blast
      qed
    qed
    then show ?thesis unfolding res Cons similarLoop_start by simp
  qed
qed

theorem AnalyzeSubCommsResults_heterogeneous_silent_witness:
  "view_lengths history_Data \<noteq> view_lengths zero_Data
   \<and> AnalyzeSubCommsResults True None as_listed history_heap
        [(0, zero_SendRecvStats), (1, zero_SendRecvStats)] [(0, history_Data), (1, zero_Data)]
      = (None, None)
   \<and> \<not> Same wide_heap group_wide group_narrow
   \<and> AnalyzeSubCommsResults False (Some 0) as_listed wide_heap two_ranks
        [(1, group_wide), (0, group_narrow)]
      = (None, None)"
proof -
  have ne: "view_lengths history_Data \<noteq> view_lengths zero_Data"
    by (simp add: view_lengths_def history_Data_def zero_Data_def)
  have no: "\<not> Same wide_heap group_wide group_narrow"
    by (simp add: wide_heap_def group_narrow_def group_wide_def sig_b_def sig_d_def
        Same_def sameListOfPatterns_def)
  have "\<exists>p \<in> set (map snd [(0::int, history_Data), (1, zero_Data)]).
               \<exists>q \<in> set (map snd [(0::int, history_Data), (1, zero_Data)]).
              view_lengths p \<noteq> view_lengths q"
  proof (rule bexI[of _ history_Data], rule bexI[of _ zero_Data])
    show "view_lengths history_Data \<noteq> view_lengths zero_Data" by (rule ne)
  qed simp_all
  then have one: "AnalyzeSubCommsResults True None as_listed history_heap
        [(0, zero_SendRecvStats), (1, zero_SendRecvStats)] [(0, history_Data), (1, zero_Data)]
      = (None, None)"
    by (rule AnalyzeSubCommsResults_heterogeneous_silent[THEN iffD2, OF disjI1])
  have "\<exists>q \<in> set (tl (map snd [(1::int, group_wide), (0, group_narrow)])).
          \<not> Same wide_heap (hd (map snd [(1::int, group_wide), (0, group_narrow)])) q"
    using no by simp
  then have two: "AnalyzeSubCommsResults False (Some 0) as_listed wide_heap two_ranks
        [(1, group_wide), (0, group_narrow)]
      = (None, None)"
    by (rule AnalyzeSubCommsResults_heterogeneous_silent[THEN iffD2, OF disjI2])
  show ?thesis using ne one no two by (intro conjI)
qed
section \<open>Claim C7\<close>

text \<open>
  Claim C7 at its failing inputs: every patterns file with at least one bucket. The file
  is the one \<open>SaveStats\<close> writes with \<open>WriteToFile\<close> when all writes succeed. \<open>WriteToFile\<close>
  ends the line \<open>## Pattern #...\<close> with two newlines, so the line that follows it is
  empty; \<open>GetPatternHeader\<close> wants \<open>Alltoallv calls: \<close> on that line. Whatever the call
  number, the compression and its inverse, and the orders in which the signature maps are
  visited, \<open>GetCall\<close> returns an error at the first block.
\<close>

theorem GetCall_rejects_written_file:
  "GetCall ConvertCompressedCallList
     (Some (written (snd (SaveStats_patterns CompressIntArray orders h (d\<lparr>AllPatterns := cp # cps\<rparr>)
                            numCalls \<lparr>written = [], quota = None\<rparr>))))
     callNum
   = ([], Some (UnableToRead (NotAHeader ''\<newline>'')))"
proof -
  let ?hdr = "''## Pattern #'' @ itoa 0 @ '' ('' @ itoa (Count (h ! cp)) @ ''/'' @ itoa numCalls
         @ '' alltoallv calls)''"
  let ?rest = "''Alltoallv calls: '' @ CompressIntArray (Calls (h ! cp)) @ ''\<newline>''
        @ out (writeDataToFile (orders 0) (h ! cp)) @ ''\<newline>''
        @ out (writeAllPatterns CompressIntArray orders h numCalls 1 cps)"
  have content: "written (snd (SaveStats_patterns CompressIntArray orders h (d\<lparr>AllPatterns := cp # cps\<rparr>)
                            numCalls \<lparr>written = [], quota = None\<rparr>))
      = ''# Patterns'' @ CHR 0x0A # ?hdr @ CHR 0x0A # [] @ CHR 0x0A # ?rest"
    using SaveStats_patterns_out[where cia = CompressIntArray and orders = orders and h = h and d = d and cp = cp
        and cps = cps and t = numCalls]
    by (simp only: emptyFile_def)
  have r1: "ReadString (''# Patterns'' @ CHR 0x0A # ?hdr @ CHR 0x0A # [] @ CHR 0x0A # ?rest)
      = (''# Patterns'' @ [CHR 0x0A], None, ?hdr @ CHR 0x0A # [] @ CHR 0x0A # ?rest)"
    by (rule ReadString_line) simp
  have nh: "CHR 0x0A \<notin> set ?hdr" by (simp add: nl_notin_itoa)
  have r2: "ReadString (?hdr @ CHR 0x0A # [] @ CHR 0x0A # ?rest)
      = (?hdr @ [CHR 0x0A], None, [] @ CHR 0x0A # ?rest)"
    using nh by (rule ReadString_line)
  have r3: "ReadString ([] @ CHR 0x0A # ?rest) = ([] @ [CHR 0x0A], None, ?rest)"
    by (rule ReadString_line) simp
  have p1: "HasPrefix (?hdr @ [CHR 0x0A]) ''## Pattern #''" by (simp add: HasPrefix_def)
  have p2: "\<not> HasPrefix ([] @ [CHR 0x0A]) ''Alltoallv calls: ''" by (simp add: HasPrefix_def)
  have hdr: "GetPatternHeader ConvertCompressedCallList (?hdr @ CHR 0x0A # [] @ CHR 0x0A # ?rest)
      = (([], [], Some (NotAHeader ''\<newline>'')), ?rest)"
    unfolding GetPatternHeader_def r2 prod.case option.case r3 using p1 p2 by simp
  have loop: "GetCall_loop ConvertCompressedCallList callNum
        (?hdr @ CHR 0x0A # [] @ CHR 0x0A # ?rest)
      = ([], Some (UnableToRead (NotAHeader ''\<newline>'')))"
    by (subst GetCall_loop.simps) (simp only: hdr, simp)
  show ?thesis
    unfolding content GetCall_def option.case r1 prod.case using loop by simp
qed

section \<open>Claim C8\<close>

text \<open>
  Claim C8. When some bucket of \<open>AllPatterns\<close> matches the pair, \<open>addPattern\<close> returns the
  collection unchanged (\<open>AllPatterns\<close> and the four views are the same slices) and a store
  of the same size that differs at one address only, that of a matching bucket: its count
  is one more and its call list has the call number appended; its maps are the same.
  Whatever the call, each of \<open>AllPatterns\<close>, \<open>OneToN\<close>, \<open>NToN\<close> and \<open>NToOne\<close> only grows at
  its end, and \<open>Empty\<close> stays the same.
\<close>

theorem addPattern_merge_frame:
  assumes wf: "\<forall>a \<in> set (AllPatterns d). a < length h"
    and hit: "filter (\<lambda>b. matches (h ! b) s r) (AllPatterns d) \<noteq> []"
  shows "(\<exists>x \<in> set (AllPatterns d). matches (h ! x) s r
           \<and> addPattern c s r (h, d)
               = (h[x := (h ! x)\<lparr>Count := Count (h ! x) + 1, Calls := Calls (h ! x) @ [c]\<rparr>], d)
           \<and> length (fst (addPattern c s r (h, d))) = length h
           \<and> (\<forall>a. a \<noteq> x \<longrightarrow> fst (addPattern c s r (h, d)) ! a = h ! a)
           \<and> fst (addPattern c s r (h, d)) ! x
               = (h ! x)\<lparr>Count := Count (h ! x) + 1, Calls := Calls (h ! x) @ [c]\<rparr>)
       \<and> (\<forall>c' s' r'. \<exists>a1 a2 a3 a4.
             AllPatterns (snd (addPattern c' s' r' (h, d))) = AllPatterns d @ a1
           \<and> OneToN (snd (addPattern c' s' r' (h, d))) = OneToN d @ a2
           \<and> NToN (snd (addPattern c' s' r' (h, d))) = NToN d @ a3
           \<and> NToOne (snd (addPattern c' s' r' (h, d))) = NToOne d @ a4
           \<and> Empty (snd (addPattern c' s' r' (h, d))) = Empty d)"
proof (intro conjI allI)
  show "\<exists>x \<in> set (AllPatterns d). matches (h ! x) s r
           \<and> addPattern c s r (h, d)
               = (h[x := (h ! x)\<lparr>Count := Count (h ! x) + 1, Calls := Calls (h ! x) @ [c]\<rparr>], d)
           \<and> length (fst (addPattern c s r (h, d))) = length h
           \<and> (\<forall>a. a \<noteq> x \<longrightarrow> fst (addPattern c s r (h, d)) ! a = h ! a)
           \<and> fst (addPattern c s r (h, d)) ! x
               = (h ! x)\<lparr>Count := Count (h ! x) + 1, Calls := Calls (h ! x) @ [c]\<rparr>"
  proof (cases rule: addPattern_cases[of d h s r c])
    case (merge pre x post)
    have x: "x \<in> set (AllPatterns d)" using merge(1) by simp
    then have xl: "x < length h" using wf by blast
    have "addPattern c s r (h, d)
               = (h[x := (h ! x)\<lparr>Count := Count (h ! x) + 1, Calls := Calls (h ! x) @ [c]\<rparr>], d)"
      using merge(4) by (simp add: bump_def)
    with x xl merge(3) show ?thesis by (intro bexI[of _ x]) simp_all
  next
    case new
    with hit show ?thesis by (simp add: filter_empty_conv)
  qed
next
  fix c' s' r'
  show "\<exists>a1 a2 a3 a4.
             AllPatterns (snd (addPattern c' s' r' (h, d))) = AllPatterns d @ a1
           \<and> OneToN (snd (addPattern c' s' r' (h, d))) = OneToN d @ a2
           \<and> NToN (snd (addPattern c' s' r' (h, d))) = NToN d @ a3
           \<and> NToOne (snd (addPattern c' s' r' (h, d))) = NToOne d @ a4
           \<and> Empty (snd (addPattern c' s' r' (h, d))) = Empty d"
    by (rule addPattern_grows)
qed

theorem addPattern_merge_frame_witness:
  "list_all (\<lambda>a. a < length history_heap) (AllPatterns history_Data)
   \<and> filter (\<lambda>b. matches (history_heap ! b) sig_a' sig_a) (AllPatterns history_Data) \<noteq> []
   \<and> addPattern 5 sig_a' sig_a (history_heap, history_Data)
       = ([\<lparr>Send = sig_a, Recv = sig_a, Count = 3, Calls = [0, 2, 5]\<rparr>,
           \<lparr>Send = sig_b, Recv = sig_b, Count = 1, Calls = [1]\<rparr>,
           \<lparr>Send = sig_b, Recv = sig_a, Count = 1, Calls = [3]\<rparr>], history_Data)"
proof -
  have wf: "\<forall>a \<in> set (AllPatterns history_Data). a < length history_heap"
    by (simp add: history_Data_def history_heap_def)
  have sel: "filter (\<lambda>b. matches (history_heap ! b) sig_a' sig_a) (AllPatterns history_Data) = [0]"
    by (simp add: history_Data_def history_heap_def matches_def sig_a_def sig_a'_def sig_b_def
        CompareCallPatterns_def len_def)
  then have hit: "filter (\<lambda>b. matches (history_heap ! b) sig_a' sig_a) (AllPatterns history_Data) \<noteq> []"
    by simp
  from addPattern_merge_frame[OF wf hit, of 5]
  obtain x where x: "x \<in> set (AllPatterns history_Data)" "matches (history_heap ! x) sig_a' sig_a"
    and res: "addPattern 5 sig_a' sig_a (history_heap, history_Data)
               = (history_heap[x := (history_heap ! x)\<lparr>Count := Count (history_heap ! x) + 1,
                    Calls := Calls (history_heap ! x) @ [5]\<rparr>], history_Data)"
    by blast
  from x have "x \<in> set (filter (\<lambda>b. matches (history_heap ! b) sig_a' sig_a) (AllPatterns history_Data))"
    by simp
  then have "x = 0" by (simp only: sel) simp
  with res have "addPattern 5 sig_a' sig_a (history_heap, history_Data)
       = ([\<lparr>Send = sig_a, Recv = sig_a, Count = 3, Calls = [0, 2, 5]\<rparr>,
           \<lparr>Send = sig_b, Recv = sig_b, Count = 1, Calls = [1]\<rparr>,
           \<lparr>Send = sig_b, Recv = sig_a, Count = 1, Calls = [3]\<rparr>], history_Data)"
    by (simp add: history_heap_def)
  with wf hit show ?thesis by (simp add: list_all_iff)
qed

section \<open>Claim C9\<close>

text \<open>
  Claim C9, as stated, fails. \<open>writeDataToFile\<close> writes the lines of a signature in the
  order in which \<open>range\<close> visits the map, and Go chooses that order at each execution of
  the statement. Below, two runs of \<open>AnalyzeSubCommsResults\<close> on the same groups and the
  same statistics: in the first every range visits the entries as listed, in the second
  the range over the send map of bucket 0 in the N-to-N section visits them the other way
  round. Both runs return a nil error, and the two files differ. Bucket 0, with the send
  signature \<open>{4: 4, 101: 1}\<close>, is in the N-to-N and in the 1-to-N view: the file of the
  second run shows it with its lines in two different orders.
\<close>

theorem report_differs_between_runs_counterexample:
  "AnalyzeSubCommsResults True None as_listed history_heap two_stats two_patterns
     = (None, Some \<lparr>written = example_report bucket0_listed bucket0_listed, quota = None\<rparr>)
   \<and> AnalyzeSubCommsResults True None swap_NtoN history_heap two_stats two_patterns
     = (None, Some \<lparr>written = example_report bucket0_swapped bucket0_listed, quota = None\<rparr>)
   \<and> example_report bucket0_swapped bucket0_listed \<noteq> example_report bucket0_listed bucket0_listed"
proof -
  have ne: "two_stats \<noteq> []" by (simp add: two_stats_def)
  have l: "as_listed 0 0 = ([], [])" "as_listed 1 0 = ([], [])"
    "swap_NtoN 0 0 = ([1, 0], [])" "swap_NtoN 1 0 = ([], [])"
    by (simp_all add: as_listed_def swap_NtoN_def)
  have t1: "out (writeReport as_listed history_heap two_stats two_patterns)
      = example_report bucket0_listed bucket0_listed"
    by (rule example_report_text) (simp_all only: l data_text_listed bucket0_listed_def)
  have t2: "out (writeReport swap_NtoN history_heap two_stats two_patterns)
      = example_report bucket0_swapped bucket0_listed"
    by (rule example_report_text)
       (simp_all only: l data_text_listed data_text_swapped bucket0_listed_def bucket0_swapped_def)
  have r1: "AnalyzeSubCommsResults True None as_listed history_heap two_stats two_patterns
     = (None, Some \<lparr>written = example_report bucket0_listed bucket0_listed, quota = None\<rparr>)"
    using AnalyzeSubCommsResults_written[OF two_patterns_pass(1) ne, of as_listed]
    by (simp only: t1)
  have r2: "AnalyzeSubCommsResults True None swap_NtoN history_heap two_stats two_patterns
     = (None, Some \<lparr>written = example_report bucket0_swapped bucket0_listed, quota = None\<rparr>)"
    using AnalyzeSubCommsResults_written[OF two_patterns_pass(1) ne, of swap_NtoN]
    by (simp only: t2)
  have d: "example_report bucket0_swapped bucket0_listed \<noteq> example_report bucket0_listed bucket0_listed"
    by (simp add: example_report_def bucket0_swapped_def bucket0_listed_def)
  show ?thesis using r1 r2 d by (intro conjI)
qed

text \<open>
  Claim C9, amended. The report is determined by the groups, the statistics and the orders
  in which the ranges over the signature maps visit their entries. Whenever
  \<open>AnalyzeSubCommsResults\<close> goes on to the report in both of two orders of visiting the
  groups of \<open>stats\<close> and \<open>allPatterns\<close>, it returns the same result in both. When it goes on
  to the report and opening and writing the file succeed, the file holds, in this order:
  the title, the N-to-N, 1-to-N and N-to-1 sections (each left out when the view of the
  lowest rank is empty), the tally of calls without data for the ranks in ascending order,
  and the bins of the ranks in ascending order. When every bucket described in the three
  sections has at most one entry in its send map and in its receive map, the result is the
  same for all orders of the ranges, so that two runs agree byte for byte.
\<close>

theorem report_rendering_fixed_order:
  assumes "distinct (map fst stats)" and "distinct (map fst allPatterns)"
    and "mset stats' = mset stats" and "mset allPatterns' = mset allPatterns"
  shows "(AnalyzeSubCommsResults open_ok q orders h stats' allPatterns' \<noteq> (None, None)
          \<and> AnalyzeSubCommsResults open_ok q orders h stats allPatterns \<noteq> (None, None)
          \<longrightarrow> AnalyzeSubCommsResults open_ok q orders h stats' allPatterns'
              = AnalyzeSubCommsResults open_ok q orders h stats allPatterns)
       \<and> (stats \<noteq> []
          \<and> AnalyzeSubCommsResults True None orders h stats allPatterns \<noteq> (None, None)
          \<longrightarrow> AnalyzeSubCommsResults True None orders h stats allPatterns
              = (None, Some \<lparr>written = report_title
                 @ section_text (WriteSubcommNtoNPatterns (orders 0)) NToN h
                     (sort (map fst stats)) stats allPatterns
                 @ section_text (WriteSubcomm1toNPatterns (orders 1)) OneToN h
                     (sort (map fst stats)) stats allPatterns
                 @ section_text (WriteSubcommNto1Patterns (orders 2)) NToOne h
                     (sort (map fst stats)) stats allPatterns
                 @ ''\<newline>## All 0 counts pattern; no data exchanged\<newline>\<newline>''
                 @ concat (map (\<lambda>rank. out (emptyTallyLine stats allPatterns rank))
                               (sort (map fst stats)))
                 @ ''\<newline># Counts analysis\<newline>\<newline>''
                 @ concat (map (\<lambda>rank. ''-> Sub-communicator led by rank '' @ itoa rank
                                  @ '':\<newline>''
                                  @ concat (map (\<lambda>b. out (binLine b)) (Bins (lookupStats stats rank))))
                               (sort (map fst stats))), quota = None\<rparr>))
       \<and> ((\<forall>p \<in> set (printed (lookupData allPatterns (hd (sort (map fst stats))))).
              len (Send (h ! p)) \<le> 1 \<and> len (Recv (h ! p)) \<le> 1)
          \<longrightarrow> AnalyzeSubCommsResults open_ok q orders h stats allPatterns
              = AnalyzeSubCommsResults open_ok q orders' h stats allPatterns)"
proof (intro conjI impI)
  assume "AnalyzeSubCommsResults open_ok q orders h stats' allPatterns' \<noteq> (None, None)
          \<and> AnalyzeSubCommsResults open_ok q orders h stats allPatterns \<noteq> (None, None)"
  then have sim: "similarLoop h (map snd allPatterns') (- 1) (- 1) (- 1) (- 1) zero_Data"
      "similarLoop h (map snd allPatterns) (- 1) (- 1) (- 1) (- 1) zero_Data"
    by (simp_all add: AnalyzeSubCommsResults_silent)
  have "writeReport orders h stats' allPatterns' = writeReport orders h stats allPatterns"
    using assms by (rule writeReport_perm)
  then show "AnalyzeSubCommsResults open_ok q orders h stats' allPatterns'
              = AnalyzeSubCommsResults open_ok q orders h stats allPatterns"
    using sim by (simp add: AnalyzeSubCommsResults_def)
next
  assume a: "stats \<noteq> []
          \<and> AnalyzeSubCommsResults True None orders h stats allPatterns \<noteq> (None, None)"
  then have ne: "stats \<noteq> []"
    and w: "AnalyzeSubCommsResults True None orders h stats allPatterns \<noteq> (None, None)"
    by simp_all
  show "AnalyzeSubCommsResults True None orders h stats allPatterns
              = (None, Some \<lparr>written = report_title
                 @ section_text (WriteSubcommNtoNPatterns (orders 0)) NToN h
                     (sort (map fst stats)) stats allPatterns
                 @ section_text (WriteSubcomm1toNPatterns (orders 1)) OneToN h
                     (sort (map fst stats)) stats allPatterns
                 @ section_text (WriteSubcommNto1Patterns (orders 2)) NToOne h
                     (sort (map fst stats)) stats allPatterns
                 @ ''\<newline>## All 0 counts pattern; no data exchanged\<newline>\<newline>''
                 @ concat (map (\<lambda>rank. out (emptyTallyLine stats allPatterns rank))
                               (sort (map fst stats)))
                 @ ''\<newline># Counts analysis\<newline>\<newline>''
                 @ concat (map (\<lambda>rank. ''-> Sub-communicator led by rank '' @ itoa rank
                                  @ '':\<newline>''
                                  @ concat (map (\<lambda>b. out (binLine b)) (Bins (lookupStats stats rank))))
                               (sort (map fst stats))), quota = None\<rparr>)"
    using AnalyzeSubCommsResults_written[OF w ne] by (simp only: writeReport_text(2)[OF ne])
next
  assume short: "\<forall>p \<in> set (printed (lookupData allPatterns (hd (sort (map fst stats))))).
              len (Send (h ! p)) \<le> 1 \<and> len (Recv (h ! p)) \<le> 1"
  have "writeSections orders h (sort (map fst stats)) stats allPatterns
      = writeSections orders' h (sort (map fst stats)) stats allPatterns"
    by (rule writeSections_orders) (use short in blast)
  then have "writeReport orders h stats allPatterns = writeReport orders' h stats allPatterns"
    by (simp add: writeReport_def)
  then show "AnalyzeSubCommsResults open_ok q orders h stats allPatterns
              = AnalyzeSubCommsResults open_ok q orders' h stats allPatterns"
    by (simp add: AnalyzeSubCommsResults_def)
qed

theorem report_rendering_fixed_order_witness:
  "distinct (map fst two_stats) \<and> distinct (map fst two_patterns)
   \<and> mset (rev two_stats) = mset two_stats \<and> mset (rev two_patterns) = mset two_patterns
   \<and> two_stats \<noteq> []
   \<and> AnalyzeSubCommsResults True None swap_NtoN history_heap (rev two_stats) (rev two_patterns)
       \<noteq> (None, None)
   \<and> AnalyzeSubCommsResults True None swap_NtoN history_heap two_stats two_patterns
       \<noteq> (None, None)
   \<and> AnalyzeSubCommsResults True None swap_NtoN history_heap (rev two_stats) (rev two_patterns)
       = AnalyzeSubCommsResults True None swap_NtoN history_heap two_stats two_patterns
   \<and> AnalyzeSubCommsResults True None swap_NtoN history_heap two_stats two_patterns
       = (None, Some \<lparr>written = example_report bucket0_swapped bucket0_listed, quota = None\<rparr>)
   \<and> printed (lookupData [(0, single_Data)] (hd (sort (map fst [(0::int, zero_SendRecvStats)]))))
       = [0]
   \<and> len (Send (single_heap ! 0)) = 1 \<and> len (Recv (single_heap ! 0)) = 1
   \<and> AnalyzeSubCommsResults True None as_listed single_heap [(0, zero_SendRecvStats)]
         [(0, single_Data)]
       = AnalyzeSubCommsResults True None swap_NtoN single_heap [(0, zero_SendRecvStats)]
         [(0, single_Data)]"
proof -
  have d: "distinct (map fst two_stats)" "distinct (map fst two_patterns)"
    by (simp_all add: two_stats_def two_patterns_def)
  have m: "mset (rev two_stats) = mset two_stats" "mset (rev two_patterns) = mset two_patterns"
    by simp_all
  have ne: "two_stats \<noteq> []" by (simp add: two_stats_def)
  have p: "AnalyzeSubCommsResults True None swap_NtoN history_heap (rev two_stats) (rev two_patterns)
       \<noteq> (None, None)"
    "AnalyzeSubCommsResults True None swap_NtoN history_heap two_stats two_patterns
       \<noteq> (None, None)"
    by (rule two_patterns_pass)+
  have l: "swap_NtoN 0 0 = ([1, 0], [])" "swap_NtoN 1 0 = ([], [])"
    by (simp_all add: swap_NtoN_def)
  have t: "out (writeReport swap_NtoN history_heap two_stats two_patterns)
      = example_report bucket0_swapped bucket0_listed"
    by (rule example_report_text)
       (simp_all only: l data_text_listed data_text_swapped bucket0_listed_def bucket0_swapped_def)
  note inst = report_rendering_fixed_order[OF d m, of True None swap_NtoN history_heap]
  from inst p
  have e1: "AnalyzeSubCommsResults True None swap_NtoN history_heap (rev two_stats) (rev two_patterns)
       = AnalyzeSubCommsResults True None swap_NtoN history_heap two_stats two_patterns"
    by blast
  from inst ne p(2)
  have e2: "AnalyzeSubCommsResults True None swap_NtoN history_heap two_stats two_patterns
       = (None, Some \<lparr>written = example_report bucket0_swapped bucket0_listed, quota = None\<rparr>)"
    by (simp only: writeReport_text(2)[OF ne, symmetric] t) simp
  have pr: "printed (lookupData [(0, single_Data)] (hd (sort (map fst [(0::int, zero_SendRecvStats)]))))
       = [0]"
    by (simp add: printed_def lookupData_def single_Data_def)
  have sh: "len (Send (single_heap ! 0)) = 1" "len (Recv (single_heap ! 0)) = 1"
    by (simp_all add: single_heap_def len_def)
  have e3: "AnalyzeSubCommsResults True None as_listed single_heap [(0, zero_SendRecvStats)]
         [(0, single_Data)]
       = AnalyzeSubCommsResults True None swap_NtoN single_heap [(0, zero_SendRecvStats)]
         [(0, single_Data)]"
    using report_rendering_fixed_order[of "[(0, zero_SendRecvStats)]" "[(0, single_Data)]"
        "[(0, zero_SendRecvStats)]" "[(0, single_Data)]" True None as_listed single_heap swap_NtoN]
    by (simp only: pr) (simp add: sh)
  show ?thesis using d m ne p e1 e2 pr sh e3 by (intro conjI)
qed
section \<open>Claim C10\<close>

text \<open>
  Claim C10. When every call parses, \<open>ParseFiles\<close> returns without error and \<open>Empty\<close> holds
  one entry per call whose two totals of non-zero counts are zero, in call order: a
  record with nil maps, count one and that call number as its only call. The entries are
  distinct objects allocated during the pass, none of them a bucket of \<open>AllPatterns\<close>, so
  the length of \<open>Empty\<close> is the number of such calls; it is the number the consolidated
  summary prints for the group, and the line is left out when there is none.
\<close>

theorem ParseFiles_Empty_one_entry_per_barrier_call:
  assumes "\<forall>i \<in> {0..<numCalls}. snd (counts_ParseFiles i) = None"
  shows "\<exists>stats h d. ParseFiles counts_ParseFiles NewSendRecvStats numCalls h0 = (stats, (h, d), None)
      \<and> map (\<lambda>a. h ! a) (Empty d)
          = map (\<lambda>i. \<lparr>Send = NilMap, Recv = NilMap, Count = 1, Calls = [i]\<rparr>)
                (barrier_calls counts_ParseFiles numCalls)
      \<and> length (Empty d) = length (barrier_calls counts_ParseFiles numCalls)
      \<and> distinct (Empty d)
      \<and> set (Empty d) \<inter> set (AllPatterns d) = {}
      \<and> (\<forall>a \<in> set (Empty d). length h0 \<le> a \<and> a < length h)
      \<and> (\<forall>stats' allPatterns rank fd. lookupData allPatterns rank = d \<longrightarrow>
            emptyTallyLine stats' allPatterns rank fd
            = (if barrier_calls counts_ParseFiles numCalls = [] then (None, fd)
               else WriteString (''-> Sub-communicator led by rank '' @ itoa rank @ '': ''
                      @ itoa (int (length (barrier_calls counts_ParseFiles numCalls))) @ ''/''
                      @ itoa (TotalNumCalls (lookupStats stats' rank))
                      @ '' alltoallv calls\<newline>'') fd))"
proof -
  from ParseFiles_run[OF assms, where new = NewSendRecvStats and ?h0.0 = h0]
  obtain stats st where run: "ParseFiles counts_ParseFiles NewSendRecvStats numCalls h0 = (stats, st, None)"
    and inv: "pf_inv h0 counts_ParseFiles (max 0 numCalls) st" by blast
  obtain h d where st: "st = (h, d)" by (cases st)
  have bc: "barrier_calls counts_ParseFiles (max 0 numCalls) = barrier_calls counts_ParseFiles numCalls"
    by (simp add: barrier_calls_def max_def)
  from inv st have distE: "distinct (Empty d)"
    and disj: "set (Empty d) \<inter> set (AllPatterns d) = {}"
    and bnd: "\<forall>a \<in> set (AllPatterns d) \<union> set (Empty d). length h0 \<le> a \<and> a < length h"
    and emp: "map (\<lambda>a. h ! a) (Empty d) = map emptyPattern (barrier_calls counts_ParseFiles numCalls)"
    by (auto simp: pf_inv_def bc)
  have emp': "map (\<lambda>a. h ! a) (Empty d)
          = map (\<lambda>i. \<lparr>Send = NilMap, Recv = NilMap, Count = 1, Calls = [i]\<rparr>)
                (barrier_calls counts_ParseFiles numCalls)"
    using emp by (simp add: emptyPattern_def[abs_def])
  have len: "length (Empty d) = length (barrier_calls counts_ParseFiles numCalls)"
    using arg_cong[OF emp, of length] by simp
  have bndE: "\<forall>a \<in> set (Empty d). length h0 \<le> a \<and> a < length h" using bnd by blast
  have tally: "emptyTallyLine stats' allPatterns rank fd
            = (if barrier_calls counts_ParseFiles numCalls = [] then (None, fd)
               else WriteString (''-> Sub-communicator led by rank '' @ itoa rank @ '': ''
                      @ itoa (int (length (barrier_calls counts_ParseFiles numCalls))) @ ''/''
                      @ itoa (TotalNumCalls (lookupStats stats' rank))
                      @ '' alltoallv calls\<newline>'') fd)"
    if "lookupData allPatterns rank = d" for stats' allPatterns rank fd
    using that len by (simp add: emptyTallyLine_def)
  show ?thesis using run st emp' len distE disj bndE tally by blast
qed

theorem ParseFiles_Empty_one_entry_per_barrier_call_witness:
  "snd (example_counts 0) = None \<and> snd (example_counts 1) = None \<and> snd (example_counts 2) = None
   \<and> barrier_calls example_counts 3 = [1]
   \<and> (\<exists>stats h d. ParseFiles example_counts zero_SendRecvStats 3 [] = (stats, (h, d), None)
        \<and> map (\<lambda>a. h ! a) (Empty d) = [\<lparr>Send = NilMap, Recv = NilMap, Count = 1, Calls = [1]\<rparr>]
        \<and> length (Empty d) = 1
        \<and> distinct (Empty d)
        \<and> set (Empty d) \<inter> set (AllPatterns d) = {}
        \<and> emptyTallyLine [(7, stats)] [(7, d)] 7 \<lparr>written = [], quota = None\<rparr>
            = (None, \<lparr>written = ''-> Sub-communicator led by rank 7: 1/3 alltoallv calls\<newline>'',
                       quota = None\<rparr>))"
proof -
  have parsed: "\<forall>i \<in> {0..<3}. snd (example_counts i) = None"
    by (simp add: example_counts_def)
  have bc: "barrier_calls example_counts 3 = [1]"
    by (simp add: barrier_calls_def barrier_def example_counts_def zero_SendRecvStats_def upto_rec1)
  from ParseFiles_Empty_one_entry_per_barrier_call[OF parsed, of zero_SendRecvStats "[]"]
  obtain stats h d where
    run: "ParseFiles example_counts zero_SendRecvStats 3 [] = (stats, (h, d), None)"
    and emp: "map (\<lambda>a. h ! a) (Empty d)
          = map (\<lambda>i. \<lparr>Send = NilMap, Recv = NilMap, Count = 1, Calls = [i]\<rparr>)
                (barrier_calls example_counts 3)"
    and len: "length (Empty d) = length (barrier_calls example_counts 3)"
    and dist: "distinct (Empty d)"
    and disj: "set (Empty d) \<inter> set (AllPatterns d) = {}"
    and tally: "\<forall>stats' allPatterns rank fd. lookupData allPatterns rank = d \<longrightarrow>
            emptyTallyLine stats' allPatterns rank fd
            = (if barrier_calls example_counts 3 = [] then (None, fd)
               else WriteString (''-> Sub-communicator led by rank '' @ itoa rank @ '': ''
                      @ itoa (int (length (barrier_calls example_counts 3))) @ ''/''
                      @ itoa (TotalNumCalls (lookupStats stats' rank))
                      @ '' alltoallv calls\<newline>'') fd)"
    by blast
  have stats: "TotalNumCalls stats = 3" using run by (auto simp: example_run)
  have "lookupData [(7, d)] 7 = d" by (simp add: lookupData_def)
  from tally[rule_format, OF this, of "[(7, stats)]" "\<lparr>written = [], quota = None\<rparr>"]
  have line: "emptyTallyLine [(7, stats)] [(7, d)] 7 \<lparr>written = [], quota = None\<rparr>
            = (None, \<lparr>written = ''-> Sub-communicator led by rank 7: 1/3 alltoallv calls\<newline>'',
                       quota = None\<rparr>)"
    by (simp add: bc lookupStats_def stats WriteString_def itoa_def digits.simps)
  show ?thesis using run emp len dist disj line bc
    by (intro conjI exI[of _ stats] exI[of _ h] exI[of _ d]) (simp_all add: example_counts_def)
qed

end
